theory Spec2Isabelle
  imports Main "HOL-Library.Sublist" "HOL-Library.Multiset"
begin

section \<open>Exceptions\<close>

text \<open>
  Every \<^verbatim>\<open>raise\<close> that can leave a function of \<^verbatim>\<open>main.py\<close> is a value of this
  type; a function that may raise returns \<open>error + 'a\<close> with \<open>Inl\<close> for the exception.
  \<open>OSError\<close> stands for what \<^verbatim>\<open>open\<close> raises on a missing or unreadable file,
  \<open>YAMLError\<close> for what \<^verbatim>\<open>yaml.safe_load\<close> raises on a malformed document.
\<close>

datatype error = ValueError | TypeError | AttributeError | KeyError | OSError | YAMLError

section \<open>Dates and times (the parts of \<^verbatim>\<open>datetime\<close> that \<^verbatim>\<open>main.py\<close> calls)\<close>

text \<open>
  A naive \<^verbatim>\<open>datetime\<close> is its proleptic Gregorian ordinal (day 1 is 0001-01-01), the
  second of the day and the microsecond. A \<^verbatim>\<open>timedelta\<close> holds days, seconds and
  microseconds, normalised by its constructor with floor division so that
  \<open>0 \<le> seconds < 86400\<close> and \<open>0 \<le> microseconds < 1000000\<close>; the days may be negative.
\<close>

record datetime =
  dt_ordinal :: int
  dt_second :: int
  dt_microsecond :: int

record timedelta =
  td_days :: int
  td_seconds :: int
  td_microseconds :: int

definition is_leap :: "int \<Rightarrow> bool" where
  "is_leap year = (year mod 4 = 0 \<and> (year mod 100 \<noteq> 0 \<or> year mod 400 = 0))"

definition days_before_year :: "int \<Rightarrow> int" where
  "days_before_year year = (let y = year - 1 in y * 365 + y div 4 - y div 100 + y div 400)"

definition DAYS_IN_MONTH :: "int list" where
  "DAYS_IN_MONTH = [31, 28, 31, 30, 31, 30, 31, 31, 30, 31, 30, 31]"

definition days_in_month :: "int \<Rightarrow> int \<Rightarrow> int" where
  "days_in_month year month =
     (if month = 2 \<and> is_leap year then 29 else DAYS_IN_MONTH ! nat (month - 1))"

definition days_before_month :: "int \<Rightarrow> int \<Rightarrow> int" where
  "days_before_month year month =
     sum_list (take (nat (month - 1)) DAYS_IN_MONTH) + (if 2 < month \<and> is_leap year then 1 else 0)"

definition ymd2ord :: "int \<Rightarrow> int \<Rightarrow> int \<Rightarrow> int" where
  "ymd2ord year month day = days_before_year year + days_before_month year month + day"

text \<open>
  The constructor \<^verbatim>\<open>datetime(year, month, day)\<close>: midnight of that day, \<^verbatim>\<open>ValueError\<close>
  when a field is out of range (\<^verbatim>\<open>MINYEAR = 1\<close>, \<^verbatim>\<open>MAXYEAR = 9999\<close>).
\<close>

definition datetime_ymd :: "int \<Rightarrow> int \<Rightarrow> int \<Rightarrow> error + datetime" where
  "datetime_ymd year month day =
     (if 1 \<le> year \<and> year \<le> 9999 \<and> 1 \<le> month \<and> month \<le> 12
         \<and> 1 \<le> day \<and> day \<le> days_in_month year month
      then Inr \<lparr>dt_ordinal = ymd2ord year month day, dt_second = 0, dt_microsecond = 0\<rparr>
      else Inl ValueError)"

definition timedelta_new :: "int \<Rightarrow> int \<Rightarrow> int \<Rightarrow> timedelta" where
  "timedelta_new d s us =
     (let s1 = s + us div 1000000;
          d1 = d + s1 div 86400
      in \<lparr>td_days = d1, td_seconds = s1 mod 86400, td_microseconds = us mod 1000000\<rparr>)"

text \<open>\<^verbatim>\<open>a - b\<close> on two naive datetimes.\<close>

definition datetime_sub :: "datetime \<Rightarrow> datetime \<Rightarrow> timedelta" where
  "datetime_sub a b =
     timedelta_new (dt_ordinal a - dt_ordinal b) (dt_second a - dt_second b)
       (dt_microsecond a - dt_microsecond b)"

text \<open>The position of a datetime on the time line, in microseconds; used in statements only.\<close>

definition us_per_day :: int where
  "us_per_day = 86400 * 1000000"

definition total_us :: "datetime \<Rightarrow> int" where
  "total_us a = (dt_ordinal a * 86400 + dt_second a) * 1000000 + dt_microsecond a"

subsection \<open>\<^verbatim>\<open>datetime.strptime(s, "%Y-%m-%d")\<close>\<close>

text \<open>
  \<^verbatim>\<open>strptime\<close> compiles the format to the regular expression
  \<^verbatim>\<open>(?P<Y>\d\d\d\d)-(?P<m>1[0-2]|0[1-9]|[1-9])-(?P<d>3[0-1]|[1-2]\d|0[1-9]|[1-9]| [1-9])\<close>,
  matches it at the start of the string, raises \<^verbatim>\<open>ValueError\<close> when there is no match
  or when text remains after the match, and builds the datetime from the three groups.
  Each group is matched by its first alternative that fits: the group \<open>m\<close> is followed by
  the literal \<^verbatim>\<open>-\<close>, which no shorter alternative can reach once a longer one has
  consumed a digit, and the group \<open>d\<close> ends the expression. Strings are sequences of
  8-bit characters here, so \<^verbatim>\<open>\d\<close> is an ASCII digit.
\<close>

definition is_digit :: "char \<Rightarrow> bool" where
  "is_digit c = (48 \<le> (of_char c :: nat) \<and> (of_char c :: nat) \<le> 57)"

definition is_digit19 :: "char \<Rightarrow> bool" where
  "is_digit19 c = (49 \<le> (of_char c :: nat) \<and> (of_char c :: nat) \<le> 57)"

definition digit_val :: "char \<Rightarrow> int" where
  "digit_val c = int (of_char c) - 48"

fun match_Y :: "string \<Rightarrow> (int \<times> string) option" where
  "match_Y (a # b # c # d # rest) =
     (if is_digit a \<and> is_digit b \<and> is_digit c \<and> is_digit d
      then Some (1000 * digit_val a + 100 * digit_val b + 10 * digit_val c + digit_val d, rest)
      else None)"
| "match_Y _ = None"

fun match_lit :: "char \<Rightarrow> string \<Rightarrow> string option" where
  "match_lit c (a # rest) = (if a = c then Some rest else None)"
| "match_lit c [] = None"

fun match_m :: "string \<Rightarrow> (int \<times> string) option" where
  "match_m (a # b # rest) =
     (if a = CHR ''1'' \<and> (b = CHR ''0'' \<or> b = CHR ''1'' \<or> b = CHR ''2'')
        then Some (10 + digit_val b, rest)
      else if a = CHR ''0'' \<and> is_digit19 b then Some (digit_val b, rest)
      else if is_digit19 a then Some (digit_val a, b # rest)
      else None)"
| "match_m [a] = (if is_digit19 a then Some (digit_val a, []) else None)"
| "match_m [] = None"

fun match_d :: "string \<Rightarrow> (int \<times> string) option" where
  "match_d (a # b # rest) =
     (if a = CHR ''3'' \<and> (b = CHR ''0'' \<or> b = CHR ''1'') then Some (30 + digit_val b, rest)
      else if (a = CHR ''1'' \<or> a = CHR ''2'') \<and> is_digit b
        then Some (10 * digit_val a + digit_val b, rest)
      else if a = CHR ''0'' \<and> is_digit19 b then Some (digit_val b, rest)
      else if is_digit19 a then Some (digit_val a, b # rest)
      else if a = CHR '' '' \<and> is_digit19 b then Some (digit_val b, rest)
      else None)"
| "match_d [a] = (if is_digit19 a then Some (digit_val a, []) else None)"
| "match_d [] = None"

definition strptime_ymd :: "string \<Rightarrow> error + datetime" where
  "strptime_ymd s =
     (case match_Y s of
        None \<Rightarrow> Inl ValueError
      | Some (year, r1) \<Rightarrow>
     (case match_lit (CHR ''-'') r1 of
        None \<Rightarrow> Inl ValueError
      | Some r2 \<Rightarrow>
     (case match_m r2 of
        None \<Rightarrow> Inl ValueError
      | Some (month, r3) \<Rightarrow>
     (case match_lit (CHR ''-'') r3 of
        None \<Rightarrow> Inl ValueError
      | Some r4 \<Rightarrow>
     (case match_d r4 of
        None \<Rightarrow> Inl ValueError
      | Some (day, r5) \<Rightarrow>
          if r5 \<noteq> [] then Inl ValueError else datetime_ymd year month day)))))"

section \<open>The clock\<close>

text \<open>
  \<^verbatim>\<open>datetime.now()\<close> is read once at the top of \<^verbatim>\<open>enrich_conference_data\<close> and once
  more in every call of \<^verbatim>\<open>days_until\<close> that gets as far as line 58. A clock gives the
  \<open>k\<close>-th reading; the state threaded through the functions is the number of readings
  taken so far. The current moment held fixed at \<open>t\<close> is the clock \<open>fixed_clock t\<close>.
\<close>

type_synonym clock = "nat \<Rightarrow> datetime"

definition datetime_now :: "clock \<Rightarrow> nat \<Rightarrow> datetime \<times> nat" where
  "datetime_now clk n = (clk n, Suc n)"

definition fixed_clock :: "datetime \<Rightarrow> clock" where
  "fixed_clock t k = t"

section \<open>\<^verbatim>\<open>parse_date\<close> and \<^verbatim>\<open>days_until\<close>\<close>

text \<open>
  A date value of the configuration is a string or absent (\<^verbatim>\<open>None\<close>: the key is
  missing or its value is null). \<^verbatim>\<open>not date_str\<close> holds for \<^verbatim>\<open>None\<close> and for the empty
  string.
\<close>

fun truthy :: "string option \<Rightarrow> bool" where
  "truthy None = False"
| "truthy (Some s) = (s \<noteq> [])"

fun parse_date :: "string option \<Rightarrow> error + datetime option" where
  "parse_date None = Inr None"
| "parse_date (Some s) =
     (if s = [] then Inr None
      else case strptime_ymd s of Inl e \<Rightarrow> Inl e | Inr dt \<Rightarrow> Inr (Some dt))"

definition days_until :: "clock \<Rightarrow> nat \<Rightarrow> string option \<Rightarrow> (error + int option) \<times> nat" where
  "days_until clk n date_str =
     (if \<not> truthy date_str then (Inr None, n)
      else case parse_date date_str of
        Inl e \<Rightarrow> (Inl e, n)
      | Inr deadline \<Rightarrow>
          (case datetime_now clk n of (today, n') \<Rightarrow>
             (case deadline of
                None \<Rightarrow> (Inl TypeError, n')
              | Some dl \<Rightarrow> (Inr (Some (td_days (datetime_sub dl today))), n'))))"

section \<open>Conference records\<close>

text \<open>
  A conference record is the dictionary of one entry of the configuration file. The code
  reads two of its keys: \<^verbatim>\<open>conference_date\<close> (through \<^verbatim>\<open>conf.get\<close>, so a missing key
  and a null value are both \<open>None\<close>) and \<^verbatim>\<open>deadlines\<close> (through
  \<^verbatim>\<open>conf.get("deadlines", {})\<close>; \<open>None\<close> is the missing key), a dictionary from the
  deadline type to its date, kept as the list of its items in insertion order. All other
  keys (name, full name, website) are carried in \<open>info\<close>. A record of another shape (a
  \<^verbatim>\<open>deadlines\<close> that is not a dictionary, a date that is not a string) is outside this
  type; the translation on objects further down takes every shape.

  The enriched record is the copy with the three derived keys added. An entry of
  \<^verbatim>\<open>all_deadlines\<close> is the dictionary \<^verbatim>\<open>{"type": ..., "date": ..., "days": ...}\<close>.
\<close>

record conference =
  info :: "(string \<times> string) list"
  conference_date :: "string option"
  deadlines :: "(string \<times> string option) list option"

record deadline_entry =
  d_type :: string
  d_date :: "string option"
  d_days :: int

record enriched_conference = conference +
  all_deadlines :: "deadline_entry list"
  next_deadline :: "deadline_entry option"
  conference_days :: "int option"

section \<open>\<^verbatim>\<open>enrich_conference_data\<close>\<close>

text \<open>The inner loop, lines 73 to 80: one entry is appended for each deadline with days.\<close>

fun deadlines_loop ::
  "clock \<Rightarrow> nat \<Rightarrow> (string \<times> string option) list \<Rightarrow> deadline_entry list
     \<Rightarrow> (error + deadline_entry list) \<times> nat" where
  "deadlines_loop clk n [] all_dl = (Inr all_dl, n)"
| "deadlines_loop clk n ((deadline_type, date_str) # items) all_dl =
     (case days_until clk n date_str of
        (Inl e, n') \<Rightarrow> (Inl e, n')
      | (Inr None, n') \<Rightarrow> deadlines_loop clk n' items all_dl
      | (Inr (Some days), n') \<Rightarrow>
          deadlines_loop clk n' items
            (all_dl @ [\<lparr>d_type = deadline_type, d_date = date_str, d_days = days\<rparr>]))"

text \<open>
  \<^verbatim>\<open>list.sort(key=...)\<close> is a stable sort: the result is ordered by the key and elements
  with equal keys keep their order. There is exactly one such list, and \<open>sort_key\<close>
  computes it.

  The body of the outer loop, lines 69 to 89.
\<close>

definition enrich_conf :: "clock \<Rightarrow> nat \<Rightarrow> conference \<Rightarrow> (error + enriched_conference) \<times> nat" where
  "enrich_conf clk n conf =
     (case deadlines_loop clk n (case deadlines conf of None \<Rightarrow> [] | Some d \<Rightarrow> d) [] of
        (Inl e, n1) \<Rightarrow> (Inl e, n1)
      | (Inr all_dl, n1) \<Rightarrow>
          (let sorted_dl = sort_key d_days all_dl in
           case days_until clk n1 (conference_date conf) of
             (Inl e, n2) \<Rightarrow> (Inl e, n2)
           | (Inr cdays, n2) \<Rightarrow>
               (Inr \<lparr>info = info conf, conference_date = conference_date conf,
                     deadlines = deadlines conf,
                     all_deadlines = sorted_dl,
                     next_deadline = (case sorted_dl of [] \<Rightarrow> None | x # _ \<Rightarrow> Some x),
                     conference_days = cdays\<rparr>, n2)))"

fun enrich_loop ::
  "clock \<Rightarrow> nat \<Rightarrow> conference list \<Rightarrow> enriched_conference list
     \<Rightarrow> (error + enriched_conference list) \<times> nat" where
  "enrich_loop clk n [] enriched = (Inr enriched, n)"
| "enrich_loop clk n (conf # conferences) enriched =
     (case enrich_conf clk n conf of
        (Inl e, n') \<Rightarrow> (Inl e, n')
      | (Inr conf_copy, n') \<Rightarrow> enrich_loop clk n' conferences (enriched @ [conf_copy]))"

text \<open>
  The value of \<^verbatim>\<open>sort_key\<close>: an integer or \<^verbatim>\<open>float('inf')\<close>, which Python compares
  exactly, every integer being below infinity.
\<close>

datatype keyval = Num int | Infinity

instantiation keyval :: linorder
begin

fun less_eq_keyval :: "keyval \<Rightarrow> keyval \<Rightarrow> bool" where
  "less_eq_keyval (Num a) (Num b) = (a \<le> b)"
| "less_eq_keyval (Num a) Infinity = True"
| "less_eq_keyval Infinity (Num b) = False"
| "less_eq_keyval Infinity Infinity = True"

definition less_keyval :: "keyval \<Rightarrow> keyval \<Rightarrow> bool" where
  "less_keyval x y = (x \<le> y \<and> \<not> y \<le> x)"

instance
proof
  fix x y z :: keyval
  show "(x < y) = (x \<le> y \<and> \<not> y \<le> x)" by (simp add: less_keyval_def)
  show "x \<le> x" by (cases x) simp_all
  show "x \<le> y \<Longrightarrow> y \<le> z \<Longrightarrow> x \<le> z" by (cases x; cases y; cases z) simp_all
  show "x \<le> y \<Longrightarrow> y \<le> x \<Longrightarrow> x = y" by (cases x; cases y) simp_all
  show "x \<le> y \<or> y \<le> x" by (cases x; cases y) auto
qed

end

definition sort_key_conf :: "enriched_conference \<Rightarrow> keyval" where
  "sort_key_conf conf =
     (case next_deadline conf of
        None \<Rightarrow> Infinity
      | Some nd \<Rightarrow>
          (let days = d_days nd in
           if days < 0 then Num (10000 + abs days) else Num days))"

definition enrich_conference_data ::
  "clock \<Rightarrow> nat \<Rightarrow> conference list \<Rightarrow> (error + enriched_conference list) \<times> nat" where
  "enrich_conference_data clk n conferences =
     (case datetime_now clk n of (today, n0) \<Rightarrow>
        (case enrich_loop clk n0 conferences [] of
           (Inl e, n') \<Rightarrow> (Inl e, n')
         | (Inr enriched, n') \<Rightarrow> (Inr (sort_key sort_key_conf enriched), n')))"

section \<open>The configuration loader\<close>

text \<open>
  A path is the list of its components and the file system maps a path to the text of the
  file there. \<^verbatim>\<open>Path(__file__).parent\<close> is the parameter \<open>app_dir\<close>, and
  \<^verbatim>\<open>is_relative_to\<close> compares components without touching the file system.

  \<^verbatim>\<open>yaml.safe_load\<close> is a parameter: a function from the text to the parsed document or
  to the exception it raises. A parsed document is null (an empty file), a mapping, or
  anything else (a scalar or a sequence at top level). The value under a key of the
  mapping is taken to be a list of conference records, the type that
  \<^verbatim>\<open>enrich_conference_data\<close> is given.
\<close>

type_synonym path = "string list"

type_synonym filesystem = "path \<Rightarrow> string option"

datatype document = DocNull | DocMapping "(string \<times> conference list) list" | DocOther

type_synonym yaml_loader = "string \<Rightarrow> error + document"

definition is_relative_to :: "path \<Rightarrow> path \<Rightarrow> bool" where
  "is_relative_to p other = prefix other p"

definition load_conferences :: "path \<Rightarrow> filesystem \<Rightarrow> yaml_loader \<Rightarrow> error + conference list" where
  "load_conferences app_dir fs safe_load =
     (let config_path = app_dir @ [''data'', ''conferences.yaml''] in
      if \<not> is_relative_to config_path app_dir then Inl ValueError
      else case fs config_path of
        None \<Rightarrow> Inl OSError
      | Some f \<Rightarrow>
          (case safe_load f of
             Inl e \<Rightarrow> Inl e
           | Inr data \<Rightarrow>
               (case data of
                  DocMapping m \<Rightarrow>
                    Inr (case map_of m ''conferences'' of None \<Rightarrow> [] | Some v \<Rightarrow> v)
                | DocNull \<Rightarrow> Inl AttributeError
                | DocOther \<Rightarrow> Inl AttributeError)))"

text \<open>The handler of \<^verbatim>\<open>/api/conferences\<close>: load, then enrich.\<close>

definition get_conferences ::
  "path \<Rightarrow> filesystem \<Rightarrow> yaml_loader \<Rightarrow> clock \<Rightarrow> nat
     \<Rightarrow> (error + enriched_conference list) \<times> nat" where
  "get_conferences app_dir fs safe_load clk n =
     (case load_conferences app_dir fs safe_load of
        Inl e \<Rightarrow> (Inl e, n)
      | Inr conferences \<Rightarrow> enrich_conference_data clk n conferences)"

section \<open>\<^verbatim>\<open>enrich_conference_data\<close> on objects\<close>

text \<open>
  The definitions above work on values, where nothing can be mutated. To say what the
  function does to the objects it is given, the same code is translated once more, on a
  heap: a value is \<^verbatim>\<open>None\<close>, a string, an integer or a reference to a dictionary or a
  list; the heap is the list of all objects, a reference being an index into it, and
  allocation appends. \<open>DanglingRef\<close> is the model's own error for a reference outside
  the heap, which no Python program can hold.

  A program takes the state (the heap and the number of clock readings) and returns the
  value or the exception, and the state after.
\<close>

type_synonym addr = nat

datatype val = VNone | VStr string | VInt int | VRef addr

datatype obj = ODict "(string \<times> val) list" | OList "val list"

datatype herror = Py error | DanglingRef

record state =
  heap :: "obj list"
  ticks :: nat

type_synonym 'a prog = "state \<Rightarrow> (herror + 'a) \<times> state"

definition ret :: "'a \<Rightarrow> 'a prog" where
  "ret x s = (Inr x, s)"

definition throw :: "error \<Rightarrow> 'a prog" where
  "throw e s = (Inl (Py e), s)"

definition seq :: "'a prog \<Rightarrow> ('a \<Rightarrow> 'b prog) \<Rightarrow> 'b prog" where
  "seq m f s = (case m s of (Inl e, s') \<Rightarrow> (Inl e, s') | (Inr x, s') \<Rightarrow> f x s')"

definition alloc :: "obj \<Rightarrow> val prog" where
  "alloc ob s = (Inr (VRef (length (heap s))), s\<lparr>heap := heap s @ [ob]\<rparr>)"

definition deref :: "val \<Rightarrow> obj option prog" where
  "deref v s =
     (case v of
        VRef a \<Rightarrow> if a < length (heap s) then (Inr (Some (heap s ! a)), s) else (Inl DanglingRef, s)
      | _ \<Rightarrow> (Inr None, s))"

definition write_obj :: "val \<Rightarrow> obj \<Rightarrow> unit prog" where
  "write_obj v ob s =
     (case v of
        VRef a \<Rightarrow>
          if a < length (heap s) then (Inr (), s\<lparr>heap := (heap s)[a := ob]\<rparr>)
          else (Inl DanglingRef, s)
      | _ \<Rightarrow> (Inl DanglingRef, s))"

definition now_h :: "clock \<Rightarrow> datetime prog" where
  "now_h clk s = (Inr (clk (ticks s)), s\<lparr>ticks := Suc (ticks s)\<rparr>)"

text \<open>\<^verbatim>\<open>x.copy()\<close>: a shallow copy of a dictionary or a list.\<close>

definition copy_h :: "val \<Rightarrow> val prog" where
  "copy_h x = seq (deref x) (\<lambda>ob. case ob of None \<Rightarrow> throw AttributeError | Some ob \<Rightarrow> alloc ob)"

text \<open>\<^verbatim>\<open>x.get(k, default)\<close> and \<^verbatim>\<open>x.items()\<close>, which only a dictionary has.\<close>

definition get_h :: "val \<Rightarrow> string \<Rightarrow> val \<Rightarrow> val prog" where
  "get_h x k dflt =
     seq (deref x) (\<lambda>ob. case ob of
        Some (ODict d) \<Rightarrow> ret (case map_of d k of None \<Rightarrow> dflt | Some v \<Rightarrow> v)
      | _ \<Rightarrow> throw AttributeError)"

definition items_h :: "val \<Rightarrow> (string \<times> val) list prog" where
  "items_h x =
     seq (deref x) (\<lambda>ob. case ob of Some (ODict d) \<Rightarrow> ret d | _ \<Rightarrow> throw AttributeError)"

text \<open>\<^verbatim>\<open>x[k]\<close> with a string key and \<^verbatim>\<open>x[k] = v\<close>.\<close>

definition getitem_h :: "val \<Rightarrow> string \<Rightarrow> val prog" where
  "getitem_h x k =
     seq (deref x) (\<lambda>ob. case ob of
        Some (ODict d) \<Rightarrow> (case map_of d k of None \<Rightarrow> throw KeyError | Some v \<Rightarrow> ret v)
      | _ \<Rightarrow> throw TypeError)"

definition dict_set :: "(string \<times> val) list \<Rightarrow> string \<Rightarrow> val \<Rightarrow> (string \<times> val) list" where
  "dict_set d k v =
     (if k \<in> fst ` set d then map (\<lambda>(k', v'). if k' = k then (k', v) else (k', v')) d
      else d @ [(k, v)])"

definition setitem_h :: "val \<Rightarrow> string \<Rightarrow> val \<Rightarrow> unit prog" where
  "setitem_h x k v =
     seq (deref x) (\<lambda>ob. case ob of
        Some (ODict d) \<Rightarrow> write_obj x (ODict (dict_set d k v))
      | _ \<Rightarrow> throw TypeError)"

text \<open>\<^verbatim>\<open>xs.append(v)\<close> and the truth value \<^verbatim>\<open>bool(x)\<close>.\<close>

definition append_h :: "val \<Rightarrow> val \<Rightarrow> unit prog" where
  "append_h xs v =
     seq (deref xs) (\<lambda>ob. case ob of
        Some (OList l) \<Rightarrow> write_obj xs (OList (l @ [v]))
      | _ \<Rightarrow> throw AttributeError)"

definition truth_h :: "val \<Rightarrow> bool prog" where
  "truth_h x =
     (case x of
        VNone \<Rightarrow> ret False
      | VStr s \<Rightarrow> ret (s \<noteq> [])
      | VInt i \<Rightarrow> ret (i \<noteq> 0)
      | VRef a \<Rightarrow> seq (deref x) (\<lambda>ob. case ob of
            Some (ODict d) \<Rightarrow> ret (d \<noteq> [])
          | Some (OList l) \<Rightarrow> ret (l \<noteq> [])
          | None \<Rightarrow> ret False))"

text \<open>
  \<^verbatim>\<open>for x in xs\<close> runs over the elements of a list, the keys of a dictionary or the
  characters of a string, as they are when the loop starts; the loops of this function
  change none of the objects they run over.
\<close>

definition iter_h :: "val \<Rightarrow> val list prog" where
  "iter_h x =
     (case x of
        VStr s \<Rightarrow> ret (map (\<lambda>c. VStr [c]) s)
      | VRef a \<Rightarrow> seq (deref x) (\<lambda>ob. case ob of
            Some (ODict d) \<Rightarrow> ret (map (\<lambda>(k, v). VStr k) d)
          | Some (OList l) \<Rightarrow> ret l
          | None \<Rightarrow> throw TypeError)
      | _ \<Rightarrow> throw TypeError)"

fun mapM_h :: "('a \<Rightarrow> 'b prog) \<Rightarrow> 'a list \<Rightarrow> 'b list prog" where
  "mapM_h f [] = ret []"
| "mapM_h f (x # xs) = seq (f x) (\<lambda>y. seq (mapM_h f xs) (\<lambda>ys. ret (y # ys)))"

text \<open>
  \<^verbatim>\<open>xs.sort(key=f)\<close>: the keys of all elements are computed first, then the list object
  is rewritten in key order, elements with equal keys keeping their order.
\<close>

definition sort_h :: "val \<Rightarrow> (val \<Rightarrow> ('k::linorder) prog) \<Rightarrow> unit prog" where
  "sort_h xs f =
     seq (deref xs) (\<lambda>ob. case ob of
        Some (OList l) \<Rightarrow>
          seq (mapM_h f l) (\<lambda>keys. write_obj xs (OList (map snd (sort_key fst (zip keys l)))))
      | _ \<Rightarrow> throw AttributeError)"

definition parse_date_h :: "val \<Rightarrow> datetime option prog" where
  "parse_date_h date_str =
     seq (truth_h date_str) (\<lambda>b.
       if \<not> b then ret None
       else case date_str of
         VStr s \<Rightarrow> (case strptime_ymd s of Inl e \<Rightarrow> throw e | Inr dt \<Rightarrow> ret (Some dt))
       | _ \<Rightarrow> throw TypeError)"

definition days_until_h :: "clock \<Rightarrow> val \<Rightarrow> val prog" where
  "days_until_h clk date_str =
     seq (truth_h date_str) (\<lambda>b.
       if \<not> b then ret VNone
       else
         seq (parse_date_h date_str) (\<lambda>deadline.
         seq (now_h clk) (\<lambda>today.
           case deadline of
             None \<Rightarrow> throw TypeError
           | Some dl \<Rightarrow> ret (VInt (td_days (datetime_sub dl today))))))"

fun deadlines_loop_h :: "clock \<Rightarrow> (string \<times> val) list \<Rightarrow> val \<Rightarrow> unit prog" where
  "deadlines_loop_h clk [] all_dl = ret ()"
| "deadlines_loop_h clk ((deadline_type, date_str) # items) all_dl =
     seq (days_until_h clk date_str) (\<lambda>days.
     seq (if days \<noteq> VNone
          then seq (alloc (ODict [(''type'', VStr deadline_type), (''date'', date_str),
                                  (''days'', days)]))
                 (\<lambda>entry. append_h all_dl entry)
          else ret ()) (\<lambda>_.
     deadlines_loop_h clk items all_dl))"

text \<open>
  The key of the inner sort, \<^verbatim>\<open>lambda x: x["days"]\<close>. The list holds only the entries
  built in the loop above, whose days are integers.
\<close>

definition days_key_h :: "val \<Rightarrow> int prog" where
  "days_key_h x =
     seq (getitem_h x ''days'') (\<lambda>d. case d of VInt i \<Rightarrow> ret i | _ \<Rightarrow> throw TypeError)"

definition sort_key_h :: "val \<Rightarrow> keyval prog" where
  "sort_key_h conf =
     seq (getitem_h conf ''next_deadline'') (\<lambda>nd.
     seq (truth_h nd) (\<lambda>b.
       if \<not> b then ret Infinity
       else
         seq (getitem_h nd ''days'') (\<lambda>d. case d of
            VInt days \<Rightarrow> ret (if days < 0 then Num (10000 + abs days) else Num days)
          | _ \<Rightarrow> throw TypeError)))"

text \<open>The body of the outer loop, lines 69 to 89, statement by statement.\<close>

definition enrich_conf_h :: "clock \<Rightarrow> val \<Rightarrow> val \<Rightarrow> unit prog" where
  "enrich_conf_h clk enriched conf =
     seq (copy_h conf) (\<lambda>conf_copy.
     seq (alloc (OList [])) (\<lambda>all_dl.
     seq (alloc (ODict [])) (\<lambda>empty.
     seq (get_h conf ''deadlines'' empty) (\<lambda>dls.
     seq (items_h dls) (\<lambda>items.
     seq (deadlines_loop_h clk items all_dl) (\<lambda>_.
     seq (sort_h all_dl days_key_h) (\<lambda>_.
     seq (setitem_h conf_copy ''all_deadlines'' all_dl) (\<lambda>_.
     seq (truth_h all_dl) (\<lambda>b.
     seq (if b then seq (deref all_dl) (\<lambda>ob. case ob of
                      Some (OList (x # _)) \<Rightarrow> ret x
                    | _ \<Rightarrow> throw TypeError)
          else ret VNone) (\<lambda>nd.
     seq (setitem_h conf_copy ''next_deadline'' nd) (\<lambda>_.
     seq (get_h conf ''conference_date'' VNone) (\<lambda>cdate.
     seq (days_until_h clk cdate) (\<lambda>cdays.
     seq (setitem_h conf_copy ''conference_days'' cdays) (\<lambda>_.
     append_h enriched conf_copy))))))))))))))"

fun enrich_loop_h :: "clock \<Rightarrow> val \<Rightarrow> val list \<Rightarrow> unit prog" where
  "enrich_loop_h clk enriched [] = ret ()"
| "enrich_loop_h clk enriched (conf # confs) =
     seq (enrich_conf_h clk enriched conf) (\<lambda>_. enrich_loop_h clk enriched confs)"

definition enrich_conference_data_h :: "clock \<Rightarrow> val \<Rightarrow> val prog" where
  "enrich_conference_data_h clk conferences =
     seq (alloc (OList [])) (\<lambda>enriched.
     seq (now_h clk) (\<lambda>today.
     seq (iter_h conferences) (\<lambda>confs.
     seq (enrich_loop_h clk enriched confs) (\<lambda>_.
     seq (sort_h enriched sort_key_h) (\<lambda>_.
     ret enriched)))))"

section \<open>Notions used in the statements\<close>

text \<open>The items of the \<^verbatim>\<open>deadlines\<close> dictionary of a record, none when the key is missing.\<close>

definition items_of :: "'a conference_scheme \<Rightarrow> (string \<times> string option) list" where
  "items_of conf = (case deadlines conf of None \<Rightarrow> [] | Some d \<Rightarrow> d)"

text \<open>
  An entry holds the days remaining at the moment \<open>t\<close>: its date is a non-empty string
  that \<^verbatim>\<open>strptime\<close> accepts, and its days are the whole days, rounded down, from \<open>t\<close>
  to midnight of that date.
\<close>

definition days_ok :: "datetime \<Rightarrow> deadline_entry \<Rightarrow> bool" where
  "days_ok t e = (\<exists>s dl. d_date e = Some s \<and> s \<noteq> [] \<and> strptime_ymd s = Inr dl
                     \<and> d_days e = (total_us dl - total_us t) div us_per_day)"

text \<open>\<open>ec\<close> is what the loop body makes of \<open>conf\<close>, at some state of the clock.\<close>

definition enriches :: "clock \<Rightarrow> conference \<Rightarrow> enriched_conference \<Rightarrow> bool" where
  "enriches clk conf ec = (\<exists>m m'. enrich_conf clk m conf = (Inr ec, m'))"

subsection \<open>Concrete inputs\<close>

text \<open>Noon of 2024-01-01 and noon of 2026-11-04.\<close>

definition noon_2024_01_01 :: datetime where
  "noon_2024_01_01 = \<lparr>dt_ordinal = 738886, dt_second = 43200, dt_microsecond = 0\<rparr>"

definition now_2026 :: datetime where
  "now_2026 = \<lparr>dt_ordinal = 739924, dt_second = 43200, dt_microsecond = 0\<rparr>"

definition entry_abstract :: deadline_entry where
  "entry_abstract = \<lparr>d_type = ''abstract'', d_date = Some ''2000-01-01'', d_days = - 9805\<rparr>"

definition entry_paper :: deadline_entry where
  "entry_paper = \<lparr>d_type = ''paper'', d_date = Some ''2099-01-01'', d_days = 26355\<rparr>"

text \<open>A record with a past and a future deadline, one without a date and one with an empty one.\<close>

definition conf_two :: conference where
  "conf_two = \<lparr>info = [(''name'', ''X'')], conference_date = Some ''2027-06-01'',
      deadlines = Some [(''paper'', Some ''2099-01-01''), (''abstract'', Some ''2000-01-01''),
                        (''poster'', None), (''demo'', Some '''')]\<rparr>"

definition enriched_two :: enriched_conference where
  "enriched_two = \<lparr>info = [(''name'', ''X'')], conference_date = Some ''2027-06-01'',
      deadlines = Some [(''paper'', Some ''2099-01-01''), (''abstract'', Some ''2000-01-01''),
                        (''poster'', None), (''demo'', Some '''')],
      all_deadlines = [entry_abstract, entry_paper],
      next_deadline = Some entry_abstract,
      conference_days = Some 208\<rparr>"

text \<open>
  The scenario of the specification: A with a deadline on 2099-01-01, B with one on
  2000-01-01, C with no deadlines; and their enriched records at noon of 2026-11-04.
\<close>

definition conf_A :: conference where
  "conf_A = \<lparr>info = [(''name'', ''A'')], conference_date = None,
      deadlines = Some [(''paper'', Some ''2099-01-01'')]\<rparr>"

definition conf_B :: conference where
  "conf_B = \<lparr>info = [(''name'', ''B'')], conference_date = None,
      deadlines = Some [(''paper'', Some ''2000-01-01'')]\<rparr>"

definition conf_C :: conference where
  "conf_C = \<lparr>info = [(''name'', ''C'')], conference_date = None, deadlines = Some []\<rparr>"

definition enriched_A :: enriched_conference where
  "enriched_A = \<lparr>info = [(''name'', ''A'')], conference_date = None,
      deadlines = Some [(''paper'', Some ''2099-01-01'')],
      all_deadlines = [entry_paper], next_deadline = Some entry_paper,
      conference_days = None\<rparr>"

definition enriched_B :: enriched_conference where
  "enriched_B = \<lparr>info = [(''name'', ''B'')], conference_date = None,
      deadlines = Some [(''paper'', Some ''2000-01-01'')],
      all_deadlines = [\<lparr>d_type = ''paper'', d_date = Some ''2000-01-01'', d_days = - 9805\<rparr>],
      next_deadline = Some \<lparr>d_type = ''paper'', d_date = Some ''2000-01-01'', d_days = - 9805\<rparr>,
      conference_days = None\<rparr>"

definition enriched_C :: enriched_conference where
  "enriched_C = \<lparr>info = [(''name'', ''C'')], conference_date = None, deadlines = Some [],
      all_deadlines = [], next_deadline = None, conference_days = None\<rparr>"

text \<open>A record whose only deadline, 1999-01-01, passed longer ago than that of B.\<close>

definition conf_old :: conference where
  "conf_old = \<lparr>info = [(''name'', ''O'')], conference_date = None,
      deadlines = Some [(''paper'', Some ''1999-01-01'')]\<rparr>"

definition enriched_old :: enriched_conference where
  "enriched_old = \<lparr>info = [(''name'', ''O'')], conference_date = None,
      deadlines = Some [(''paper'', Some ''1999-01-01'')],
      all_deadlines = [\<lparr>d_type = ''paper'', d_date = Some ''1999-01-01'', d_days = - 10170\<rparr>],
      next_deadline = Some \<lparr>d_type = ''paper'', d_date = Some ''1999-01-01'', d_days = - 10170\<rparr>,
      conference_days = None\<rparr>"

text \<open>A record with exactly two dated deadlines, one past and one future.\<close>

definition conf_past_future :: conference where
  "conf_past_future = \<lparr>info = [(''name'', ''P'')], conference_date = None,
      deadlines = Some [(''paper'', Some ''2099-01-01''), (''abstract'', Some ''2000-01-01'')]\<rparr>"

definition enriched_past_future :: enriched_conference where
  "enriched_past_future = \<lparr>info = [(''name'', ''P'')], conference_date = None,
      deadlines = Some [(''paper'', Some ''2099-01-01''), (''abstract'', Some ''2000-01-01'')],
      all_deadlines = [entry_abstract, entry_paper], next_deadline = Some entry_abstract,
      conference_days = None\<rparr>"

text \<open>
  The date values of a record that the code hands to \<^verbatim>\<open>days_until\<close>: those of its
  deadlines, then the conference date.
\<close>

definition date_values :: "conference \<Rightarrow> string option list" where
  "date_values conf = map snd (items_of conf) @ [conference_date conf]"

text \<open>
  The form YYYY-MM-DD read by the letter, as the specification writes it: four digits,
  a hyphen, two digits, a hyphen, two digits.
\<close>

definition yyyy_mm_dd_form :: "string \<Rightarrow> bool" where
  "yyyy_mm_dd_form s =
     (length s = 10 \<and> list_all (\<lambda>i. is_digit (s ! i)) [0, 1, 2, 3, 5, 6, 8, 9]
      \<and> s ! 4 = CHR ''-'' \<and> s ! 7 = CHR ''-'')"

text \<open>Two records for the parser: a date without padding and a date that is no day.\<close>

definition conf_short :: conference where
  "conf_short = \<lparr>info = [(''name'', ''S'')], conference_date = None,
      deadlines = Some [(''paper'', Some ''2027-1-5'')]\<rparr>"

definition enriched_short :: enriched_conference where
  "enriched_short = \<lparr>info = [(''name'', ''S'')], conference_date = None,
      deadlines = Some [(''paper'', Some ''2027-1-5'')],
      all_deadlines = [\<lparr>d_type = ''paper'', d_date = Some ''2027-1-5'', d_days = 61\<rparr>],
      next_deadline = Some \<lparr>d_type = ''paper'', d_date = Some ''2027-1-5'', d_days = 61\<rparr>,
      conference_days = None\<rparr>"

definition conf_bad :: conference where
  "conf_bad = \<lparr>info = [(''name'', ''Z'')], conference_date = None,
      deadlines = Some [(''abstract'', None), (''paper'', Some ''2027-02-30'')]\<rparr>"

text \<open>
  A file system with one file, or none, and a stand-in for the parser on four texts: a
  document with the key, a document without it, the empty document, and malformed text.
\<close>

definition one_file :: "path \<Rightarrow> string \<Rightarrow> filesystem" where
  "one_file p text q = (if q = p then Some text else None)"

definition no_files :: filesystem where
  "no_files q = None"

definition demo_loader :: yaml_loader where
  "demo_loader text =
     (if text = ''conferences: [{name: C, deadlines: {}}]''
        then Inr (DocMapping [(''conferences'', [conf_C])])
      else if text = ''other: []'' then Inr (DocMapping [(''other'', [])])
      else if text = [] then Inr DocNull
      else Inl YAMLError)"

definition demo_path :: path where
  "demo_path = [''srv'', ''app'', ''data'', ''conferences.yaml'']"

subsection \<open>The invariant of the heap\<close>

text \<open>
  \<open>h0\<close> is the heap when \<^verbatim>\<open>enrich_conference_data\<close> is entered and \<open>e\<close> the address of
  the list \<^verbatim>\<open>enriched\<close>, the first object it allocates. A value is fresh when it is a
  reference to an object allocated after entry, other than \<^verbatim>\<open>enriched\<close>. The invariant:
  the objects of \<open>h0\<close> are where and what they were, and \<^verbatim>\<open>enriched\<close> is a list of fresh
  references. A program keeps the invariant, with \<open>\<phi>\<close> true of the value it returns.
\<close>

definition fresh :: "obj list \<Rightarrow> addr \<Rightarrow> val \<Rightarrow> bool" where
  "fresh h0 e v = (\<exists>c. v = VRef c \<and> length h0 \<le> c \<and> c \<noteq> e)"

definition heap_inv :: "obj list \<Rightarrow> addr \<Rightarrow> state \<Rightarrow> bool" where
  "heap_inv h0 e s =
     (prefix h0 (heap s) \<and> length h0 \<le> e \<and> e < length (heap s)
      \<and> (\<exists>l. heap s ! e = OList l \<and> (\<forall>x\<in>set l. fresh h0 e x)))"

definition keeps :: "obj list \<Rightarrow> addr \<Rightarrow> 'a prog \<Rightarrow> ('a \<Rightarrow> bool) \<Rightarrow> bool" where
  "keeps h0 e m \<phi> =
     (\<forall>s r s'. heap_inv h0 e s \<and> m s = (r, s') \<longrightarrow> heap_inv h0 e s' \<and> (\<forall>x. r = Inr x \<longrightarrow> \<phi> x))"

subsection \<open>A heap with the scenario of the specification\<close>

text \<open>
  Object 0 is the list of the three records, objects 1 to 5 the records A, B and C and
  the \<^verbatim>\<open>deadlines\<close> dictionaries of A and B; \<open>demo_new\<close> is what enrichment allocates
  at noon of 2026-11-04, \<^verbatim>\<open>enriched\<close> first.
\<close>

definition demo_heap :: "obj list" where
  "demo_heap =
     [OList [VRef 1, VRef 3, VRef 5],
      ODict [(''name'', VStr ''A''), (''deadlines'', VRef 2)],
      ODict [(''paper'', VStr ''2099-01-01'')],
      ODict [(''name'', VStr ''B''), (''deadlines'', VRef 4)],
      ODict [(''paper'', VStr ''2000-01-01''), (''abstract'', VNone)],
      ODict [(''name'', VStr ''C'')]]"

definition demo_new :: "obj list" where
  "demo_new =
     [OList [VRef 11, VRef 7, VRef 15],
      ODict [(''name'', VStr ''A''), (''deadlines'', VRef 2), (''all_deadlines'', VRef 8),
             (''next_deadline'', VRef 10), (''conference_days'', VNone)],
      OList [VRef 10],
      ODict [],
      ODict [(''type'', VStr ''paper''), (''date'', VStr ''2099-01-01''), (''days'', VInt 26355)],
      ODict [(''name'', VStr ''B''), (''deadlines'', VRef 4), (''all_deadlines'', VRef 12),
             (''next_deadline'', VRef 14), (''conference_days'', VNone)],
      OList [VRef 14],
      ODict [],
      ODict [(''type'', VStr ''paper''), (''date'', VStr ''2000-01-01''), (''days'', VInt (- 9805))],
      ODict [(''name'', VStr ''C''), (''all_deadlines'', VRef 16), (''next_deadline'', VNone),
             (''conference_days'', VNone)],
      OList [],
      ODict []]"

subsection \<open>Records of another shape, and dates that do not parse\<close>

text \<open>
  A program fails when, started in a state with the invariant, it raises. The two heaps
  hold records outside the shape of the data model: one whose \<^verbatim>\<open>deadlines\<close> is null,
  followed by one with the date 05/01/2027, and one whose date is a number.
\<close>

definition fails :: "obj list \<Rightarrow> addr \<Rightarrow> 'a prog \<Rightarrow> bool" where
  "fails h0 e m = (\<forall>s r s'. heap_inv h0 e s \<and> m s = (r, s') \<longrightarrow> (\<exists>err. r = Inl err))"

definition heap_null_deadlines :: "obj list" where
  "heap_null_deadlines =
     [OList [VRef 1, VRef 2],
      ODict [(''name'', VStr ''N''), (''deadlines'', VNone)],
      ODict [(''name'', VStr ''G''), (''deadlines'', VRef 3)],
      ODict [(''paper'', VStr ''05/01/2027'')]]"

definition heap_number_date :: "obj list" where
  "heap_number_date =
     [OList [VRef 1],
      ODict [(''name'', VStr ''I''), (''deadlines'', VRef 2)],
      ODict [(''paper'', VInt 20270105)]]"

text \<open>
  A record of the heap \<open>h\<close> with a date that is present and that \<^verbatim>\<open>strptime\<close> rejects,
  as its conference date or as a date of its \<^verbatim>\<open>deadlines\<close>.
\<close>

definition bad_record :: "obj list \<Rightarrow> val \<Rightarrow> bool" where
  "bad_record h conf =
     (\<exists>a d str err. conf = VRef a \<and> a < length h \<and> h ! a = ODict d
        \<and> str \<noteq> [] \<and> strptime_ymd str = Inl err
        \<and> (map_of d ''conference_date'' = Some (VStr str)
           \<or> (\<exists>dd items k. map_of d ''deadlines'' = Some (VRef dd) \<and> dd < length h
                 \<and> h ! dd = ODict items \<and> (k, VStr str) \<in> set items)))"

section \<open>Lemmas on dates and on the loops\<close>

lemma td_days_floor:
  "td_days (datetime_sub a b) = (total_us a - total_us b) div us_per_day"
proof -
  define d where "d = dt_ordinal a - dt_ordinal b"
  define s where "s = dt_second a - dt_second b"
  define u where "u = dt_microsecond a - dt_microsecond b"
  have tot: "total_us a - total_us b = u + (d * 86400 + s) * 1000000"
    by (simp add: total_us_def d_def s_def u_def algebra_simps)
  have "(u + (d * 86400 + s) * 1000000) div (1000000 * 86400)
          = ((u + (d * 86400 + s) * 1000000) div 1000000) div 86400"
    by (rule zdiv_zmult2_eq) simp
  also have "(u + (d * 86400 + s) * 1000000) div 1000000 = u div 1000000 + (d * 86400 + s)"
    by simp
  also have "(u div 1000000 + (d * 86400 + s)) div 86400 = d + (s + u div 1000000) div 86400"
  proof -
    have "u div 1000000 + (d * 86400 + s) = (s + u div 1000000) + d * 86400" by simp
    then show ?thesis by simp
  qed
  finally show ?thesis
    by (simp add: datetime_sub_def timedelta_new_def Let_def tot us_per_day_def d_def s_def u_def)
qed

lemma days_until_falsy: "\<not> truthy ds \<Longrightarrow> days_until clk n ds = (Inr None, n)"
  by (simp add: days_until_def)

lemma days_until_bad:
  "s \<noteq> [] \<Longrightarrow> strptime_ymd s = Inl e \<Longrightarrow> days_until clk n (Some s) = (Inl e, n)"
  by (simp add: days_until_def)

lemma days_until_good:
  "s \<noteq> [] \<Longrightarrow> strptime_ymd s = Inr dl \<Longrightarrow>
   days_until clk n (Some s) = (Inr (Some (td_days (datetime_sub dl (clk n)))), Suc n)"
  by (simp add: days_until_def datetime_now_def)

lemma strptime_error: "strptime_ymd s = Inl e \<Longrightarrow> e = ValueError"
  by (auto simp: strptime_ymd_def datetime_ymd_def split: option.splits prod.splits if_splits)

lemma strptime_nonempty: "strptime_ymd s = Inr dl \<Longrightarrow> s \<noteq> []"
  by (auto simp: strptime_ymd_def)

lemma days_until_cases:
  obtains (skip) "\<not> truthy ds" "days_until clk n ds = (Inr None, n)"
  | (bad) s where "ds = Some s" "s \<noteq> []" "strptime_ymd s = Inl ValueError"
      "days_until clk n ds = (Inl ValueError, n)"
  | (good) s dl where "ds = Some s" "s \<noteq> []" "strptime_ymd s = Inr dl"
      "days_until clk n ds = (Inr (Some (td_days (datetime_sub dl (clk n)))), Suc n)"
proof (cases "truthy ds")
  case False
  then show ?thesis using skip days_until_falsy by blast
next
  case True
  then obtain s where s: "ds = Some s" "s \<noteq> []" by (cases ds) auto
  show ?thesis
  proof (cases "strptime_ymd s")
    case (Inl e)
    then have "e = ValueError" by (rule strptime_error)
    with Inl s show ?thesis using bad days_until_bad by blast
  next
    case (Inr dl)
    with s show ?thesis using good days_until_good by blast
  qed
qed

lemma deadlines_loop_keys:
  "deadlines_loop clk n items acc = (Inr r, n') \<Longrightarrow>
   map (\<lambda>e. (d_type e, d_date e)) r
     = map (\<lambda>e. (d_type e, d_date e)) acc @ filter (\<lambda>it. truthy (snd it)) items"
proof (induction items arbitrary: n acc)
  case Nil
  then show ?case by simp
next
  case (Cons it items)
  obtain ty ds where it: "it = (ty, ds)" by (cases it)
  show ?case
  proof (cases rule: days_until_cases [where ds = ds and clk = clk and n = n])
    case skip
    with Cons.prems it have "deadlines_loop clk n items acc = (Inr r, n')" by simp
    from Cons.IH [OF this] skip it show ?thesis by simp
  next
    case (bad s)
    with Cons.prems it show ?thesis by simp
  next
    case (good s dl)
    with Cons.prems it have
      "deadlines_loop clk (Suc n) items
         (acc @ [\<lparr>d_type = ty, d_date = ds, d_days = td_days (datetime_sub dl (clk n))\<rparr>]) = (Inr r, n')"
      by simp
    from Cons.IH [OF this] good it show ?thesis by simp
  qed
qed

lemma deadlines_loop_days:
  "deadlines_loop (fixed_clock t) n items acc = (Inr r, n') \<Longrightarrow>
   \<forall>e\<in>set acc. days_ok t e \<Longrightarrow> \<forall>e\<in>set r. days_ok t e"
proof (induction items arbitrary: n acc)
  case Nil
  then show ?case by simp
next
  case (Cons it items)
  obtain ty ds where it: "it = (ty, ds)" by (cases it)
  show ?case
  proof (cases rule: days_until_cases [where ds = ds and clk = "fixed_clock t" and n = n])
    case skip
    with Cons.prems it have "deadlines_loop (fixed_clock t) n items acc = (Inr r, n')" by simp
    from Cons.IH [OF this Cons.prems(2)] show ?thesis .
  next
    case (bad s)
    with Cons.prems it show ?thesis by simp
  next
    case (good s dl)
    let ?e = "\<lparr>d_type = ty, d_date = ds, d_days = td_days (datetime_sub dl (fixed_clock t n))\<rparr>"
    from good Cons.prems it have run: "deadlines_loop (fixed_clock t) (Suc n) items (acc @ [?e]) = (Inr r, n')"
      by simp
    have "days_ok t ?e"
      using good by (simp add: days_ok_def td_days_floor fixed_clock_def)
    with Cons.prems(2) have "\<forall>e\<in>set (acc @ [?e]). days_ok t e" by simp
    from Cons.IH [OF run this] show ?thesis .
  qed
qed

lemma enrich_conf_Inr:
  assumes "enrich_conf clk n conf = (Inr ec, n')"
  obtains r n1 where "deadlines_loop clk n (items_of conf) [] = (Inr r, n1)"
    and "all_deadlines ec = sort_key d_days r"
    and "next_deadline ec = (case all_deadlines ec of [] \<Rightarrow> None | x # _ \<Rightarrow> Some x)"
    and "info ec = info conf" and "conference_date ec = conference_date conf"
    and "deadlines ec = deadlines conf"
    and "days_until clk n1 (conference_date conf) = (Inr (conference_days ec), n')"
proof -
  obtain res n1 where dl: "deadlines_loop clk n (items_of conf) [] = (res, n1)"
    by (cases "deadlines_loop clk n (items_of conf) []")
  obtain res2 n2 where du: "days_until clk n1 (conference_date conf) = (res2, n2)"
    by (cases "days_until clk n1 (conference_date conf)")
  from assms dl obtain r where r: "res = Inr r"
    by (cases res) (auto simp: enrich_conf_def items_of_def)
  from assms dl du r obtain cd where cd: "res2 = Inr cd"
    by (cases res2) (auto simp: enrich_conf_def items_of_def Let_def)
  from assms dl du r cd have
    ec: "ec = \<lparr>info = info conf, conference_date = conference_date conf,
                     deadlines = deadlines conf,
                     all_deadlines = sort_key d_days r,
                     next_deadline = (case sort_key d_days r of [] \<Rightarrow> None | x # _ \<Rightarrow> Some x),
                     conference_days = cd\<rparr>" and n2: "n2 = n'"
    by (auto simp: enrich_conf_def items_of_def Let_def)
  show ?thesis
    by (rule that [of r n1]) (use dl du r cd ec n2 in simp_all)
qed

lemma enrich_loop_rel:
  "enrich_loop clk n cs acc = (Inr r, n') \<Longrightarrow>
   \<exists>new. r = acc @ new \<and> list_all2 (enriches clk) cs new"
proof (induction cs arbitrary: n acc)
  case Nil
  then show ?case by simp
next
  case (Cons conf cs)
  obtain res n1 where step: "enrich_conf clk n conf = (res, n1)"
    by (cases "enrich_conf clk n conf")
  with Cons.prems obtain ec where ec: "res = Inr ec" by (cases res) auto
  with Cons.prems step have "enrich_loop clk n1 cs (acc @ [ec]) = (Inr r, n')" by simp
  from Cons.IH [OF this] obtain new where
    new: "r = (acc @ [ec]) @ new" "list_all2 (enriches clk) cs new" by blast
  have "enriches clk conf ec" using step ec by (auto simp: enriches_def)
  with new have "r = acc @ (ec # new) \<and> list_all2 (enriches clk) (conf # cs) (ec # new)" by simp
  then show ?case by blast
qed

lemma enrich_conference_data_Inr:
  assumes "enrich_conference_data clk n cs = (Inr out, n')"
  obtains enriched where "out = sort_key sort_key_conf enriched"
    and "list_all2 (enriches clk) cs enriched"
proof -
  obtain res n1 where loop: "enrich_loop clk (Suc n) cs [] = (res, n1)"
    by (cases "enrich_loop clk (Suc n) cs []")
  with assms obtain enriched where e: "res = Inr enriched"
    by (cases res) (auto simp: enrich_conference_data_def datetime_now_def)
  with assms loop have out: "out = sort_key sort_key_conf enriched"
    by (auto simp: enrich_conference_data_def datetime_now_def)
  from enrich_loop_rel [OF loop [unfolded e]] have "list_all2 (enriches clk) cs enriched" by simp
  with out show ?thesis by (rule that)
qed

lemma enriched_member:
  assumes "enrich_conference_data clk n cs = (Inr out, n')" and "ec \<in> set out"
  obtains conf where "conf \<in> set cs" and "enriches clk conf ec"
proof -
  from assms(1) obtain enriched where out: "out = sort_key sort_key_conf enriched"
    and rel: "list_all2 (enriches clk) cs enriched" by (rule enrich_conference_data_Inr)
  from assms(2) out have "ec \<in> set enriched" by simp
  then obtain i where i: "i < length enriched" "enriched ! i = ec" by (auto simp: in_set_conv_nth)
  with rel have "cs ! i \<in> set cs" "enriches clk (cs ! i) ec"
    by (auto simp: list_all2_conv_all_nth)
  then show ?thesis by (rule that)
qed

lemma sorted_out:
  assumes "enrich_conference_data clk n cs = (Inr out, n')"
  shows "sorted (map sort_key_conf out)"
  using assms by (auto elim!: enrich_conference_data_Inr)

lemma enriches_props:
  assumes "enriches (fixed_clock t) conf ec"
  shows "mset (map (\<lambda>e. (d_type e, d_date e)) (all_deadlines ec))
           = mset (filter (\<lambda>it. truthy (snd it)) (items_of ec))"
    and "\<forall>e\<in>set (all_deadlines ec). days_ok t e"
    and "sorted (map d_days (all_deadlines ec))"
    and "next_deadline ec = (case all_deadlines ec of [] \<Rightarrow> None | x # _ \<Rightarrow> Some x)"
    and "conference.truncate ec = conf"
proof -
  from assms obtain m m' where run: "enrich_conf (fixed_clock t) m conf = (Inr ec, m')"
    by (auto simp: enriches_def)
  from run obtain r n1 where
    loop: "deadlines_loop (fixed_clock t) m (items_of conf) [] = (Inr r, n1)"
    and ad: "all_deadlines ec = sort_key d_days r"
    and nd: "next_deadline ec = (case all_deadlines ec of [] \<Rightarrow> None | x # _ \<Rightarrow> Some x)"
    and same: "info ec = info conf" "conference_date ec = conference_date conf"
      "deadlines ec = deadlines conf"
    by (rule enrich_conf_Inr)
  have items: "items_of ec = items_of conf" using same by (simp add: items_of_def)
  have "mset (map (\<lambda>e. (d_type e, d_date e)) (sort_key d_days r))
          = mset (map (\<lambda>e. (d_type e, d_date e)) r)"
    by (metis mset_map mset_sort)
  also have "map (\<lambda>e. (d_type e, d_date e)) r = filter (\<lambda>it. truthy (snd it)) (items_of conf)"
    using deadlines_loop_keys [OF loop] by simp
  finally show "mset (map (\<lambda>e. (d_type e, d_date e)) (all_deadlines ec))
           = mset (filter (\<lambda>it. truthy (snd it)) (items_of ec))"
    by (simp add: ad items)
  show "\<forall>e\<in>set (all_deadlines ec). days_ok t e"
    using deadlines_loop_days [OF loop] by (simp add: ad)
  show "sorted (map d_days (all_deadlines ec))" by (simp add: ad)
  show "next_deadline ec = (case all_deadlines ec of [] \<Rightarrow> None | x # _ \<Rightarrow> Some x)" by (rule nd)
  show "conference.truncate ec = conf" using same by (simp add: conference.truncate_def)
qed

lemma next_min:
  assumes "sorted (map d_days ads)" and "(case ads of [] \<Rightarrow> None | x # _ \<Rightarrow> Some x) = Some nd"
  shows "nd \<in> set ads \<and> (\<forall>e\<in>set ads. d_days nd \<le> d_days e)"
proof (cases ads)
  case Nil
  with assms(2) show ?thesis by simp
next
  case (Cons x rest)
  with assms(2) have "x = nd" by simp
  with Cons assms(1) show ?thesis by auto
qed

lemma none_iff:
  assumes "mset (map f ads) = mset (filter P its)"
  shows "(case ads of [] \<Rightarrow> None | x # _ \<Rightarrow> Some x) = None \<longleftrightarrow> (\<forall>it\<in>set its. \<not> P it)"
proof -
  have "ads = [] \<longleftrightarrow> map f ads = []" by simp
  also have "\<dots> \<longleftrightarrow> mset (map f ads) = {#}" by (simp only: mset_zero_iff)
  also have "\<dots> \<longleftrightarrow> filter P its = []" by (simp only: assms mset_zero_iff)
  also have "\<dots> \<longleftrightarrow> (\<forall>it\<in>set its. \<not> P it)" by (simp add: filter_empty_conv)
  finally have "ads = [] \<longleftrightarrow> (\<forall>it\<in>set its. \<not> P it)" .
  then show ?thesis by (cases ads) simp_all
qed

lemma enrich_A_two:
  "enrich_conference_data (fixed_clock now_2026) 0 [conf_A, conf_two]
     = (Inr [enriched_two, enriched_A], 5)"
  by code_simp

lemma config_path_relative: "is_relative_to (app_dir @ rest) app_dir"
  by (simp add: is_relative_to_def)

lemma days_until_fixed_fst:
  "fst (days_until (fixed_clock t) n ds) = fst (days_until (fixed_clock t) m ds)"
  by (simp add: days_until_def datetime_now_def fixed_clock_def split: sum.splits option.splits)

lemma deadlines_loop_fixed_fst:
  "fst (deadlines_loop (fixed_clock t) n items acc) = fst (deadlines_loop (fixed_clock t) m items acc)"
proof (induction items arbitrary: n m acc)
  case Nil
  show ?case by simp
next
  case (Cons it items)
  obtain ty ds where it: "it = (ty, ds)" by (cases it)
  show ?case
  proof (cases "truthy ds")
    case False
    then show ?thesis using Cons.IH [where n = n and m = m and acc = acc] by (simp add: it days_until_falsy)
  next
    case True
    then obtain s where s: "ds = Some s" "s \<noteq> []" by (cases ds) auto
    show ?thesis
    proof (cases "strptime_ymd s")
      case (Inl e)
      then show ?thesis using s by (simp add: it days_until_bad)
    next
      case (Inr dl)
      then show ?thesis
        using s Cons.IH [where n = "Suc n" and m = "Suc m"]
        by (simp add: it days_until_good fixed_clock_def)
    qed
  qed
qed

lemma enrich_conf_fixed_fst:
  "fst (enrich_conf (fixed_clock t) n conf) = fst (enrich_conf (fixed_clock t) m conf)"
proof -
  let ?its = "case deadlines conf of None \<Rightarrow> [] | Some d \<Rightarrow> d"
  obtain r1 n1 where a: "deadlines_loop (fixed_clock t) n ?its [] = (r1, n1)"
    by (cases "deadlines_loop (fixed_clock t) n ?its []")
  obtain r2 m1 where b: "deadlines_loop (fixed_clock t) m ?its [] = (r2, m1)"
    by (cases "deadlines_loop (fixed_clock t) m ?its []")
  have r: "r1 = r2" using deadlines_loop_fixed_fst [where t = t and n = n and m = m and items = ?its and acc = "[]"] a b by simp
  obtain c1 n2 where c: "days_until (fixed_clock t) n1 (conference_date conf) = (c1, n2)"
    by (cases "days_until (fixed_clock t) n1 (conference_date conf)")
  obtain c2 m2 where d: "days_until (fixed_clock t) m1 (conference_date conf) = (c2, m2)"
    by (cases "days_until (fixed_clock t) m1 (conference_date conf)")
  have cc: "c1 = c2" using days_until_fixed_fst [where t = t and n = n1 and m = m1 and ds = "conference_date conf"] c d by simp
  show ?thesis
    by (simp add: enrich_conf_def a b c d r cc Let_def split: sum.splits)
qed

lemma enrich_loop_fixed_fst:
  "fst (enrich_loop (fixed_clock t) n cs acc) = fst (enrich_loop (fixed_clock t) m cs acc)"
proof (induction cs arbitrary: n m acc)
  case Nil
  show ?case by simp
next
  case (Cons conf cs)
  obtain r1 n1 where a: "enrich_conf (fixed_clock t) n conf = (r1, n1)"
    by (cases "enrich_conf (fixed_clock t) n conf")
  obtain r2 m1 where b: "enrich_conf (fixed_clock t) m conf = (r2, m1)"
    by (cases "enrich_conf (fixed_clock t) m conf")
  have r: "r1 = r2" using enrich_conf_fixed_fst [where t = t and n = n and m = m and conf = conf] a b by simp
  show ?case
  proof (cases r2)
    case (Inl e)
    then show ?thesis by (simp add: a b r)
  next
    case (Inr ec)
    then show ?thesis using Cons.IH [where n = n1 and m = m1 and acc = "acc @ [ec]"] by (simp add: a b r)
  qed
qed

lemma enrich_conference_data_fixed_fst:
  "fst (enrich_conference_data (fixed_clock t) n cs) = fst (enrich_conference_data (fixed_clock t) m cs)"
proof -
  obtain r1 n1 where a: "enrich_loop (fixed_clock t) (Suc n) cs [] = (r1, n1)"
    by (cases "enrich_loop (fixed_clock t) (Suc n) cs []")
  obtain r2 m1 where b: "enrich_loop (fixed_clock t) (Suc m) cs [] = (r2, m1)"
    by (cases "enrich_loop (fixed_clock t) (Suc m) cs []")
  have r: "r1 = r2" using enrich_loop_fixed_fst [where t = t and n = "Suc n" and m = "Suc m" and cs = cs and acc = "[]"] a b by simp
  show ?thesis
    by (simp add: enrich_conference_data_def datetime_now_def a b r split: sum.splits)
qed

lemma parse_date_error: "parse_date ds = Inl e \<Longrightarrow> e = ValueError"
  by (cases ds) (auto split: if_splits sum.splits dest: strptime_error)

lemma days_until_parse:
  "(parse_date ds = Inl ValueError \<longrightarrow> days_until clk n ds = (Inl ValueError, n))
   \<and> (parse_date ds \<noteq> Inl ValueError \<longrightarrow> (\<exists>d n'. days_until clk n ds = (Inr d, n')))"
proof (cases rule: days_until_cases [where ds = ds and clk = clk and n = n])
  case skip
  then show ?thesis by (cases ds) auto
next
  case (bad s)
  then show ?thesis by simp
next
  case (good s dl)
  then show ?thesis by simp
qed

lemma deadlines_loop_ok:
  "\<forall>it\<in>set items. parse_date (snd it) \<noteq> Inl ValueError \<Longrightarrow>
   \<exists>r n'. deadlines_loop clk n items acc = (Inr r, n')"
proof (induction items arbitrary: n acc)
  case Nil
  show ?case by simp
next
  case (Cons it items)
  obtain ty ds where it: "it = (ty, ds)" by (cases it)
  from Cons.prems it have "parse_date ds \<noteq> Inl ValueError" by simp
  with days_until_parse [of ds clk n] obtain d n1 where d: "days_until clk n ds = (Inr d, n1)"
    by blast
  from Cons.prems have rest: "\<forall>it\<in>set items. parse_date (snd it) \<noteq> Inl ValueError" by simp
  show ?case
  proof (cases d)
    case None
    with d it Cons.IH [OF rest, of n1 acc] show ?thesis by simp
  next
    case (Some days)
    with d it Cons.IH [OF rest, of n1 "acc @ [\<lparr>d_type = ty, d_date = ds, d_days = days\<rparr>]"]
    show ?thesis by simp
  qed
qed

lemma deadlines_loop_bad:
  "\<exists>it\<in>set items. parse_date (snd it) = Inl ValueError \<Longrightarrow>
   \<exists>n'. deadlines_loop clk n items acc = (Inl ValueError, n')"
proof (induction items arbitrary: n acc)
  case Nil
  then show ?case by simp
next
  case (Cons it items)
  obtain ty ds where it: "it = (ty, ds)" by (cases it)
  show ?case
  proof (cases "parse_date ds = Inl ValueError")
    case True
    with days_until_parse [of ds clk n] it show ?thesis by simp
  next
    case False
    with days_until_parse [of ds clk n] obtain d n1 where d: "days_until clk n ds = (Inr d, n1)"
      by blast
    from Cons.prems False it have rest: "\<exists>it\<in>set items. parse_date (snd it) = Inl ValueError"
      by auto
    show ?thesis
    proof (cases d)
      case None
      with d it Cons.IH [OF rest, of n1 acc] show ?thesis by simp
    next
      case (Some days)
      with d it Cons.IH [OF rest, of n1 "acc @ [\<lparr>d_type = ty, d_date = ds, d_days = days\<rparr>]"]
      show ?thesis by simp
    qed
  qed
qed

lemma enrich_conf_ok:
  assumes "\<forall>ds\<in>set (date_values conf). parse_date ds \<noteq> Inl ValueError"
  shows "\<exists>ec n'. enrich_conf clk n conf = (Inr ec, n')"
proof -
  from assms have "\<forall>it\<in>set (items_of conf). parse_date (snd it) \<noteq> Inl ValueError"
    by (simp add: date_values_def)
  from deadlines_loop_ok [OF this, of clk n "[]"] obtain r n1 where
    r: "deadlines_loop clk n (items_of conf) [] = (Inr r, n1)" by blast
  from assms have "parse_date (conference_date conf) \<noteq> Inl ValueError"
    by (simp add: date_values_def)
  with days_until_parse [of "conference_date conf" clk n1] obtain d n2 where
    d: "days_until clk n1 (conference_date conf) = (Inr d, n2)" by blast
  show ?thesis using r d by (simp add: enrich_conf_def items_of_def Let_def)
qed

lemma enrich_conf_bad:
  assumes "\<exists>ds\<in>set (date_values conf). parse_date ds = Inl ValueError"
  shows "\<exists>n'. enrich_conf clk n conf = (Inl ValueError, n')"
proof (cases "\<exists>it\<in>set (items_of conf). parse_date (snd it) = Inl ValueError")
  case True
  from deadlines_loop_bad [OF this, of clk n "[]"] show ?thesis
    by (auto simp: enrich_conf_def items_of_def)
next
  case False
  then have "\<forall>it\<in>set (items_of conf). parse_date (snd it) \<noteq> Inl ValueError" by simp
  from deadlines_loop_ok [OF this, of clk n "[]"] obtain r n1 where
    r: "deadlines_loop clk n (items_of conf) [] = (Inr r, n1)" by blast
  from assms False have "parse_date (conference_date conf) = Inl ValueError"
    by (auto simp: date_values_def)
  with days_until_parse [of "conference_date conf" clk n1] have
    "days_until clk n1 (conference_date conf) = (Inl ValueError, n1)" by simp
  with r show ?thesis by (simp add: enrich_conf_def items_of_def Let_def)
qed

lemma enrich_loop_ok:
  "\<forall>conf\<in>set cs. \<forall>ds\<in>set (date_values conf). parse_date ds \<noteq> Inl ValueError \<Longrightarrow>
   \<exists>r n'. enrich_loop clk n cs acc = (Inr r, n') \<and> length r = length acc + length cs"
proof (induction cs arbitrary: n acc)
  case Nil
  show ?case by simp
next
  case (Cons conf cs)
  from Cons.prems have "\<forall>ds\<in>set (date_values conf). parse_date ds \<noteq> Inl ValueError" by simp
  from enrich_conf_ok [OF this, of clk n] obtain ec n1 where
    ec: "enrich_conf clk n conf = (Inr ec, n1)" by blast
  from Cons.prems have
    "\<forall>conf\<in>set cs. \<forall>ds\<in>set (date_values conf). parse_date ds \<noteq> Inl ValueError" by simp
  from Cons.IH [OF this, of n1 "acc @ [ec]"] ec show ?case by simp
qed

lemma enrich_loop_bad:
  "\<exists>conf\<in>set cs. \<exists>ds\<in>set (date_values conf). parse_date ds = Inl ValueError \<Longrightarrow>
   \<exists>n'. enrich_loop clk n cs acc = (Inl ValueError, n')"
proof (induction cs arbitrary: n acc)
  case Nil
  then show ?case by simp
next
  case (Cons conf cs)
  show ?case
  proof (cases "\<exists>ds\<in>set (date_values conf). parse_date ds = Inl ValueError")
    case True
    from enrich_conf_bad [OF this, of clk n] show ?thesis by auto
  next
    case False
    then have "\<forall>ds\<in>set (date_values conf). parse_date ds \<noteq> Inl ValueError" by simp
    from enrich_conf_ok [OF this, of clk n] obtain ec n1 where
      ec: "enrich_conf clk n conf = (Inr ec, n1)" by blast
    from Cons.prems False have
      "\<exists>conf\<in>set cs. \<exists>ds\<in>set (date_values conf). parse_date ds = Inl ValueError" by simp
    from Cons.IH [OF this, of n1 "acc @ [ec]"] ec show ?thesis by simp
  qed
qed

lemma enriched_all:
  assumes "enrich_conference_data (fixed_clock t) n cs = (Inr out, n')"
  shows "length out = length cs" and "mset (map conference.truncate out) = mset cs"
proof -
  from assms obtain enriched where out: "out = sort_key sort_key_conf enriched"
    and rel: "list_all2 (enriches (fixed_clock t)) cs enriched"
    by (rule enrich_conference_data_Inr)
  from rel have len: "length enriched = length cs" by (simp add: list_all2_lengthD)
  then show "length out = length cs" by (simp add: out)
  have "map conference.truncate enriched = cs"
  proof (rule nth_equalityI)
    show "length (map conference.truncate enriched) = length cs" using len by simp
  next
    fix i assume "i < length (map conference.truncate enriched)"
    then have i: "i < length enriched" by simp
    with rel have "enriches (fixed_clock t) (cs ! i) (enriched ! i)"
      by (simp add: list_all2_conv_all_nth)
    from enriches_props(5) [OF this] have "conference.truncate (enriched ! i) = cs ! i" .
    with i show "map conference.truncate enriched ! i = cs ! i" by simp
  qed
  moreover have "mset (map conference.truncate out) = mset (map conference.truncate enriched)"
    unfolding out by (metis mset_map mset_sort)
  ultimately show "mset (map conference.truncate out) = mset cs" by simp
qed

section \<open>Lemmas on the heap\<close>

lemma keepsI:
  assumes "\<And>s r s'. heap_inv h0 e s \<Longrightarrow> m s = (r, s') \<Longrightarrow> heap_inv h0 e s'"
    and "\<And>s x s'. heap_inv h0 e s \<Longrightarrow> m s = (Inr x, s') \<Longrightarrow> \<phi> x"
  shows "keeps h0 e m \<phi>"
  using assms unfolding keeps_def by blast

lemma keepsD:
  assumes "keeps h0 e m \<phi>" and "heap_inv h0 e s" and "m s = (r, s')"
  shows "heap_inv h0 e s'" and "r = Inr x \<Longrightarrow> \<phi> x"
  using assms unfolding keeps_def by blast+

lemma keeps_ret: "\<phi> x \<Longrightarrow> keeps h0 e (ret x) \<phi>"
  by (simp add: keeps_def ret_def)

lemma keeps_throw: "keeps h0 e (throw err) \<phi>"
  by (simp add: keeps_def throw_def)

lemma keeps_seq:
  assumes m: "keeps h0 e m \<phi>" and f: "\<And>x. \<phi> x \<Longrightarrow> keeps h0 e (f x) \<psi>"
  shows "keeps h0 e (seq m f) \<psi>"
proof (rule keepsI)
  fix s r s' assume i: "heap_inv h0 e s" and run: "seq m f s = (r, s')"
  obtain r1 s1 where m1: "m s = (r1, s1)" by (cases "m s")
  note a = keepsD [OF m i m1]
  show "heap_inv h0 e s'"
  proof (cases r1)
    case (Inl err)
    with run m1 a(1) show ?thesis by (simp add: seq_def)
  next
    case (Inr x)
    with run m1 have "f x s1 = (r, s')" by (simp add: seq_def)
    with keepsD(1) [OF f [OF a(2) [OF Inr]] a(1)] show ?thesis by blast
  qed
next
  fix s y s' assume i: "heap_inv h0 e s" and run: "seq m f s = (Inr y, s')"
  obtain r1 s1 where m1: "m s = (r1, s1)" by (cases "m s")
  note a = keepsD [OF m i m1]
  show "\<psi> y"
  proof (cases r1)
    case (Inl err)
    with run m1 show ?thesis by (simp add: seq_def)
  next
    case (Inr x)
    with run m1 have "f x s1 = (Inr y, s')" by (simp add: seq_def)
    with keepsD(2) [OF f [OF a(2) [OF Inr]] a(1)] show ?thesis by blast
  qed
qed

lemma keeps_weaken:
  "keeps h0 e m \<phi> \<Longrightarrow> (\<And>x. \<phi> x \<Longrightarrow> \<psi> x) \<Longrightarrow> keeps h0 e m \<psi>"
  unfolding keeps_def by blast

lemma prefix_update:
  assumes "prefix h0 h" and "length h0 \<le> c"
  shows "prefix h0 (h[c := ob])"
proof -
  from assms(1) obtain zs where "h = h0 @ zs" by (auto simp: prefix_def)
  with assms(2) have "h[c := ob] = h0 @ zs[c - length h0 := ob]"
    by (simp add: list_update_append)
  then show ?thesis by simp
qed

lemma heap_inv_alloc:
  assumes "heap_inv h0 e s"
  shows "heap_inv h0 e (s\<lparr>heap := heap s @ [ob]\<rparr>)" and "fresh h0 e (VRef (length (heap s)))"
  using assms by (auto simp: heap_inv_def fresh_def nth_append prefix_length_le)

lemma keeps_alloc: "keeps h0 e (alloc ob) (fresh h0 e)"
  by (rule keepsI) (auto simp: alloc_def dest: heap_inv_alloc)

lemma heap_inv_write:
  assumes "heap_inv h0 e s" and "fresh h0 e (VRef c)"
  shows "heap_inv h0 e (s\<lparr>heap := (heap s)[c := ob]\<rparr>)"
  using assms by (auto simp: heap_inv_def fresh_def prefix_update)

lemma keeps_write: "fresh h0 e v \<Longrightarrow> keeps h0 e (write_obj v ob) (\<lambda>_. True)"
  by (rule keepsI)
     (auto simp: write_obj_def fresh_def split: val.splits if_splits
           intro: heap_inv_write [unfolded fresh_def])

lemma keeps_deref: "keeps h0 e (deref v) (\<lambda>_. True)"
  by (rule keepsI) (auto simp: deref_def split: val.splits if_splits)

lemma keeps_now: "keeps h0 e (now_h clk) (\<lambda>_. True)"
  by (rule keepsI) (auto simp: now_h_def heap_inv_def)

lemma keeps_copy: "keeps h0 e (copy_h x) (fresh h0 e)"
  unfolding copy_h_def
  by (rule keeps_seq [OF keeps_deref]) (auto split: option.splits intro: keeps_throw keeps_alloc)

lemma keeps_get: "keeps h0 e (get_h x k dflt) (\<lambda>_. True)"
  unfolding get_h_def
  by (rule keeps_seq [OF keeps_deref])
     (auto split: option.splits obj.splits intro: keeps_throw keeps_ret)

lemma keeps_items: "keeps h0 e (items_h x) (\<lambda>_. True)"
  unfolding items_h_def
  by (rule keeps_seq [OF keeps_deref])
     (auto split: option.splits obj.splits intro: keeps_throw keeps_ret)

lemma keeps_getitem: "keeps h0 e (getitem_h x k) (\<lambda>_. True)"
  unfolding getitem_h_def
  by (rule keeps_seq [OF keeps_deref])
     (auto split: option.splits obj.splits intro: keeps_throw keeps_ret)

lemma keeps_setitem: "fresh h0 e x \<Longrightarrow> keeps h0 e (setitem_h x k v) (\<lambda>_. True)"
  unfolding setitem_h_def
  by (rule keeps_seq [OF keeps_deref])
     (auto split: option.splits obj.splits intro: keeps_throw keeps_write)

lemma keeps_append: "fresh h0 e xs \<Longrightarrow> keeps h0 e (append_h xs v) (\<lambda>_. True)"
  unfolding append_h_def
  by (rule keeps_seq [OF keeps_deref])
     (auto split: option.splits obj.splits intro: keeps_throw keeps_write)

lemma keeps_truth: "keeps h0 e (truth_h x) (\<lambda>_. True)"
proof (cases x)
  case (VRef a)
  show ?thesis
    unfolding truth_h_def VRef val.case
    by (rule keeps_seq [OF keeps_deref])
       (auto split: option.splits obj.splits intro: keeps_ret)
qed (simp_all add: truth_h_def keeps_ret)

lemma keeps_iter: "keeps h0 e (iter_h x) (\<lambda>_. True)"
proof (cases x)
  case (VRef a)
  show ?thesis
    unfolding iter_h_def VRef val.case
    by (rule keeps_seq [OF keeps_deref])
       (auto split: option.splits obj.splits intro: keeps_ret keeps_throw)
qed (simp_all add: iter_h_def keeps_ret keeps_throw)

lemma keeps_mapM:
  assumes "\<And>x. keeps h0 e (f x) (\<lambda>_. True)"
  shows "keeps h0 e (mapM_h f xs) (\<lambda>_. True)"
proof (induction xs)
  case Nil
  show ?case by (simp add: keeps_ret)
next
  case (Cons x xs)
  show ?case
    unfolding mapM_h.simps
    by (rule keeps_seq [OF assms], rule keeps_seq [OF Cons.IH], rule keeps_ret, simp)
qed

lemma keeps_sort:
  assumes "fresh h0 e xs" and "\<And>x. keeps h0 e (f x) (\<lambda>_. True)"
  shows "keeps h0 e (sort_h xs f) (\<lambda>_. True)"
  unfolding sort_h_def
proof (rule keeps_seq [OF keeps_deref])
  fix ob :: "obj option"
  show "keeps h0 e (case ob of
        Some (OList l) \<Rightarrow>
          seq (mapM_h f l) (\<lambda>keys. write_obj xs (OList (map snd (sort_key fst (zip keys l)))))
      | _ \<Rightarrow> throw AttributeError) (\<lambda>_. True)"
  proof (cases ob)
    case None
    then show ?thesis by (simp add: keeps_throw)
  next
    case (Some o1)
    show ?thesis
    proof (cases o1)
      case (ODict d)
      with Some show ?thesis by (simp add: keeps_throw)
    next
      case (OList l)
      with Some show ?thesis
        by (simp, intro keeps_seq [OF keeps_mapM [OF assms(2)]] keeps_write assms(1))
    qed
  qed
qed

lemma keeps_parse_date: "keeps h0 e (parse_date_h x) (\<lambda>_. True)"
  unfolding parse_date_h_def
  by (rule keeps_seq [OF keeps_truth])
     (auto split: val.splits sum.splits intro: keeps_ret keeps_throw)

lemma keeps_days_until: "keeps h0 e (days_until_h clk x) (\<lambda>_. True)"
  unfolding days_until_h_def
proof (rule keeps_seq [OF keeps_truth])
  fix b :: bool
  show "keeps h0 e (if \<not> b then ret VNone
       else seq (parse_date_h x) (\<lambda>deadline. seq (now_h clk) (\<lambda>today.
           case deadline of None \<Rightarrow> throw TypeError
           | Some dl \<Rightarrow> ret (VInt (td_days (datetime_sub dl today)))))) (\<lambda>_. True)"
  proof (cases b)
    case False
    then show ?thesis by (simp add: keeps_ret)
  next
    case True
    have "keeps h0 e (seq (parse_date_h x) (\<lambda>deadline. seq (now_h clk) (\<lambda>today.
           case deadline of None \<Rightarrow> throw TypeError
           | Some dl \<Rightarrow> ret (VInt (td_days (datetime_sub dl today)))))) (\<lambda>_. True)"
      by (rule keeps_seq [OF keeps_parse_date], rule keeps_seq [OF keeps_now])
         (auto split: option.splits intro: keeps_ret keeps_throw)
    with True show ?thesis by simp
  qed
qed

lemma keeps_deadlines_loop:
  assumes "fresh h0 e all_dl"
  shows "keeps h0 e (deadlines_loop_h clk items all_dl) (\<lambda>_. True)"
proof (induction items)
  case Nil
  show ?case by (simp add: keeps_ret)
next
  case (Cons it items)
  obtain ty ds where it: "it = (ty, ds)" by (cases it)
  have step: "keeps h0 e (if days \<noteq> VNone
          then seq (alloc (ODict [(''type'', VStr ty), (''date'', ds), (''days'', days)]))
                 (\<lambda>entry. append_h all_dl entry)
          else ret ()) (\<lambda>_. True)" for days
    by (auto intro!: keeps_seq [OF keeps_alloc] keeps_append assms keeps_ret)
  show ?case
    unfolding it deadlines_loop_h.simps
    by (rule keeps_seq [OF keeps_days_until], rule keeps_seq [OF step], rule Cons.IH)
qed

lemma keeps_days_key: "keeps h0 e (days_key_h x) (\<lambda>_. True)"
  unfolding days_key_h_def
  by (rule keeps_seq [OF keeps_getitem]) (auto split: val.splits intro: keeps_ret keeps_throw)

lemma keeps_sort_key: "keeps h0 e (sort_key_h conf) (\<lambda>_. True)"
  unfolding sort_key_h_def
proof (rule keeps_seq [OF keeps_getitem], rule keeps_seq [OF keeps_truth])
  fix nd :: val and b :: bool
  show "keeps h0 e (if \<not> b then ret Infinity
       else seq (getitem_h nd ''days'') (\<lambda>d. case d of
            VInt days \<Rightarrow> ret (if days < 0 then Num (10000 + abs days) else Num days)
          | _ \<Rightarrow> throw TypeError)) (\<lambda>_. True)"
  proof (cases b)
    case False
    then show ?thesis by (simp add: keeps_ret)
  next
    case True
    have "keeps h0 e (seq (getitem_h nd ''days'') (\<lambda>d. case d of
            VInt days \<Rightarrow> ret (if days < 0 then Num (10000 + abs days) else Num days)
          | _ \<Rightarrow> throw TypeError)) (\<lambda>_. True)"
      by (rule keeps_seq [OF keeps_getitem]) (auto split: val.splits intro: keeps_ret keeps_throw)
    with True show ?thesis by simp
  qed
qed

lemma keeps_append_enriched:
  assumes "fresh h0 e v"
  shows "keeps h0 e (append_h (VRef e) v) (\<lambda>_. True)"
proof (rule keepsI)
  fix s r s' assume i: "heap_inv h0 e s" and run: "append_h (VRef e) v s = (r, s')"
  from i obtain l where l: "heap s ! e = OList l" "\<forall>x\<in>set l. fresh h0 e x"
    and e: "e < length (heap s)" "length h0 \<le> e" and p: "prefix h0 (heap s)"
    by (auto simp: heap_inv_def)
  from run l e have s': "s' = s\<lparr>heap := (heap s)[e := OList (l @ [v])]\<rparr>"
    by (simp add: append_h_def seq_def deref_def write_obj_def)
  show "heap_inv h0 e s'"
    using l e p assms by (auto simp: s' heap_inv_def prefix_update)
qed simp

lemma keeps_sort_enriched:
  assumes "\<And>x. keeps h0 e (f x) (\<lambda>_. True)"
  shows "keeps h0 e (sort_h (VRef e) f) (\<lambda>_. True)"
proof (rule keepsI)
  fix s r s' assume i: "heap_inv h0 e s" and run: "sort_h (VRef e) f s = (r, s')"
  from i obtain l where l: "heap s ! e = OList l" "\<forall>x\<in>set l. fresh h0 e x"
    and e: "e < length (heap s)" "length h0 \<le> e"
    by (auto simp: heap_inv_def)
  obtain r1 s1 where m: "mapM_h f l s = (r1, s1)" by (cases "mapM_h f l s")
  note a = keepsD(1) [OF keeps_mapM [OF assms] i m]
  show "heap_inv h0 e s'"
  proof (cases r1)
    case (Inl err)
    with run l e m a show ?thesis by (simp add: sort_h_def seq_def deref_def)
  next
    case (Inr keys)
    let ?new = "map snd (sort_key fst (zip keys l))"
    from a have e1: "e < length (heap s1)" and p1: "prefix h0 (heap s1)"
      by (auto simp: heap_inv_def)
    from Inr run l e m e1 have s': "s' = s1\<lparr>heap := (heap s1)[e := OList ?new]\<rparr>"
      by (simp add: sort_h_def seq_def deref_def write_obj_def)
    have "set ?new \<subseteq> set l" by (auto dest: set_zip_rightD)
    with l(2) have "\<forall>x\<in>set ?new. fresh h0 e x" by blast
    with e1 p1 e(2) show ?thesis by (auto simp: s' heap_inv_def prefix_update)
  qed
qed simp

lemma keeps_first:
  "keeps h0 e (if b then seq (deref all_dl) (\<lambda>ob. case ob of
                      Some (OList (x # _)) \<Rightarrow> ret x
                    | _ \<Rightarrow> throw TypeError)
          else ret VNone) (\<lambda>_. True)"
proof (cases b)
  case True
  have "keeps h0 e (seq (deref all_dl) (\<lambda>ob. case ob of
                      Some (OList (x # _)) \<Rightarrow> ret x
                    | _ \<Rightarrow> throw TypeError)) (\<lambda>_. True)"
    by (rule keeps_seq [OF keeps_deref])
       (auto split: option.splits obj.splits list.splits intro: keeps_ret keeps_throw)
  with True show ?thesis by simp
next
  case False
  then show ?thesis by (simp add: keeps_ret)
qed

lemma keeps_enrich_conf: "keeps h0 e (enrich_conf_h clk (VRef e) conf) (\<lambda>_. True)"
  unfolding enrich_conf_h_def
  apply (rule keeps_seq [OF keeps_copy])
  apply (rule keeps_seq [OF keeps_alloc])
  apply (rule keeps_seq [OF keeps_alloc])
  apply (rule keeps_seq [OF keeps_get])
  apply (rule keeps_seq [OF keeps_items])
  apply (rule keeps_seq [OF keeps_deadlines_loop], assumption)
  apply (rule keeps_seq [OF keeps_sort [OF _ keeps_days_key]], assumption)
  apply (rule keeps_seq [OF keeps_setitem], assumption)
  apply (rule keeps_seq [OF keeps_truth])
  apply (rule keeps_seq [OF keeps_first])
  apply (rule keeps_seq [OF keeps_setitem], assumption)
  apply (rule keeps_seq [OF keeps_get])
  apply (rule keeps_seq [OF keeps_days_until])
  apply (rule keeps_seq [OF keeps_setitem], assumption)
  apply (rule keeps_append_enriched, assumption)
  done

lemma keeps_enrich_loop: "keeps h0 e (enrich_loop_h clk (VRef e) confs) (\<lambda>_. True)"
proof (induction confs)
  case Nil
  show ?case by (simp add: keeps_ret)
next
  case (Cons conf confs)
  show ?case
    unfolding enrich_loop_h.simps
    by (rule keeps_seq [OF keeps_enrich_conf], rule Cons.IH)
qed

lemma keeps_after_alloc:
  "keeps h0 e
     (seq (now_h clk) (\<lambda>today.
      seq (iter_h conferences) (\<lambda>confs.
      seq (enrich_loop_h clk (VRef e) confs) (\<lambda>_.
      seq (sort_h (VRef e) sort_key_h) (\<lambda>_.
      ret (VRef e)))))) (\<lambda>v. v = VRef e)"
  apply (rule keeps_seq [OF keeps_now])
  apply (rule keeps_seq [OF keeps_iter])
  apply (rule keeps_seq [OF keeps_enrich_loop])
  apply (rule keeps_seq [OF keeps_sort_enriched [OF keeps_sort_key]])
  apply (rule keeps_ret)
  apply simp
  done

lemma demo_run:
  "enrich_conference_data_h (fixed_clock now_2026) (VRef 0) \<lparr>heap = demo_heap, ticks = 0\<rparr>
     = (Inr (VRef 6), \<lparr>heap = demo_heap @ demo_new, ticks = 3\<rparr>)"
  by code_simp

lemma failsI:
  assumes "\<And>s r s'. heap_inv h0 e s \<Longrightarrow> m s = (r, s') \<Longrightarrow> \<exists>err. r = Inl err"
  shows "fails h0 e m"
  using assms unfolding fails_def by blast

lemma failsD:
  assumes "fails h0 e m" and "heap_inv h0 e s" and "m s = (r, s')"
  shows "\<exists>err. r = Inl err"
  using assms unfolding fails_def by blast

lemma fails_seq1:
  assumes "fails h0 e m"
  shows "fails h0 e (seq m f)"
proof (rule failsI)
  fix s r s' assume i: "heap_inv h0 e s" and run: "seq m f s = (r, s')"
  obtain r1 s1 where m1: "m s = (r1, s1)" by (cases "m s")
  from failsD [OF assms i m1] obtain err where "r1 = Inl err" by blast
  with run m1 show "\<exists>err. r = Inl err" by (auto simp: seq_def)
qed

lemma fails_seq2:
  assumes m: "keeps h0 e m \<phi>" and f: "\<And>x. \<phi> x \<Longrightarrow> fails h0 e (f x)"
  shows "fails h0 e (seq m f)"
proof (rule failsI)
  fix s r s' assume i: "heap_inv h0 e s" and run: "seq m f s = (r, s')"
  obtain r1 s1 where m1: "m s = (r1, s1)" by (cases "m s")
  note a = keepsD [OF m i m1]
  show "\<exists>err. r = Inl err"
  proof (cases r1)
    case (Inl err)
    with run m1 show ?thesis by (auto simp: seq_def)
  next
    case (Inr x)
    with run m1 have "f x s1 = (r, s')" by (simp add: seq_def)
    from failsD [OF f [OF a(2) [OF Inr]] a(1) this] show ?thesis .
  qed
qed

lemma heap_inv_old:
  assumes "heap_inv h0 e s" and "a < length h0"
  shows "a < length (heap s)" and "heap s ! a = h0 ! a"
  using assms by (auto simp: heap_inv_def prefix_def nth_append)

lemma keeps_get_old:
  assumes "a < length h0" and "h0 ! a = ODict d"
  shows "keeps h0 e (get_h (VRef a) k dflt)
           (\<lambda>x. x = (case map_of d k of None \<Rightarrow> dflt | Some v \<Rightarrow> v))"
proof (rule keepsI)
  fix s r s' assume i: "heap_inv h0 e s" and run: "get_h (VRef a) k dflt s = (r, s')"
  from keepsD(1) [OF keeps_get i run] show "heap_inv h0 e s'" .
next
  fix s x s' assume i: "heap_inv h0 e s" and run: "get_h (VRef a) k dflt s = (Inr x, s')"
  from heap_inv_old [OF i assms(1)] assms(2) run
  show "x = (case map_of d k of None \<Rightarrow> dflt | Some v \<Rightarrow> v)"
    by (simp add: get_h_def seq_def deref_def ret_def)
qed

lemma keeps_items_old:
  assumes "a < length h0" and "h0 ! a = ODict d"
  shows "keeps h0 e (items_h (VRef a)) (\<lambda>x. x = d)"
proof (rule keepsI)
  fix s r s' assume i: "heap_inv h0 e s" and run: "items_h (VRef a) s = (r, s')"
  from keepsD(1) [OF keeps_items i run] show "heap_inv h0 e s'" .
next
  fix s x s' assume i: "heap_inv h0 e s" and run: "items_h (VRef a) s = (Inr x, s')"
  from heap_inv_old [OF i assms(1)] assms(2) run
  show "x = d" by (simp add: items_h_def seq_def deref_def ret_def)
qed

lemma keeps_iter_old:
  assumes "a < length h0" and "h0 ! a = OList l"
  shows "keeps h0 e (iter_h (VRef a)) (\<lambda>x. x = l)"
proof (rule keepsI)
  fix s r s' assume i: "heap_inv h0 e s" and run: "iter_h (VRef a) s = (r, s')"
  from keepsD(1) [OF keeps_iter i run] show "heap_inv h0 e s'" .
next
  fix s x s' assume i: "heap_inv h0 e s" and run: "iter_h (VRef a) s = (Inr x, s')"
  from heap_inv_old [OF i assms(1)] assms(2) run
  show "x = l" by (simp add: iter_h_def seq_def deref_def ret_def)
qed

lemma fails_days_until_bad:
  assumes "str \<noteq> []" and "strptime_ymd str = Inl err"
  shows "fails h0 e (days_until_h clk (VStr str))"
  using assms
  by (auto intro!: failsI
      simp: days_until_h_def parse_date_h_def truth_h_def seq_def ret_def throw_def)

lemma fails_deadlines_loop:
  assumes "(k, VStr str) \<in> set items" and "str \<noteq> []" and "strptime_ymd str = Inl err"
    and "fresh h0 e all_dl"
  shows "fails h0 e (deadlines_loop_h clk items all_dl)"
  using assms(1)
proof (induction items)
  case Nil
  then show ?case by simp
next
  case (Cons it items)
  obtain ty ds where it: "it = (ty, ds)" by (cases it)
  show ?case
  proof (cases "it = (k, VStr str)")
    case True
    with it have ds: "ds = VStr str" by simp
    show ?thesis
      unfolding it ds deadlines_loop_h.simps
      by (intro fails_seq1 fails_days_until_bad [OF assms(2,3)])
  next
    case False
    with Cons.prems have rest: "(k, VStr str) \<in> set items" by simp
    have step: "keeps h0 e (if days \<noteq> VNone
          then seq (alloc (ODict [(''type'', VStr ty), (''date'', ds), (''days'', days)]))
                 (\<lambda>entry. append_h all_dl entry)
          else ret ()) (\<lambda>_. True)" for days
      by (auto intro!: keeps_seq [OF keeps_alloc] keeps_append assms(4) keeps_ret)
    show ?thesis
      unfolding it deadlines_loop_h.simps
      by (rule fails_seq2 [OF keeps_days_until], rule fails_seq2 [OF step], rule Cons.IH [OF rest])
  qed
qed

lemma fails_enrich_conf_deadline:
  assumes "a < length h0" and "h0 ! a = ODict d"
    and "map_of d ''deadlines'' = Some (VRef dd)" and "dd < length h0" and "h0 ! dd = ODict items"
    and "(k, VStr str) \<in> set items" and "str \<noteq> []" and "strptime_ymd str = Inl err"
  shows "fails h0 e (enrich_conf_h clk (VRef e) (VRef a))"
  unfolding enrich_conf_h_def
  apply (rule fails_seq2 [OF keeps_copy])
  apply (rule fails_seq2 [OF keeps_alloc])
  apply (rule fails_seq2 [OF keeps_alloc])
  apply (rule fails_seq2 [OF keeps_get_old [OF assms(1,2)]])
  apply (simp only: assms(3) option.case)
  apply (rule fails_seq2 [OF keeps_items_old [OF assms(4,5)]])
  apply (rule fails_seq1)
  apply (simp only:)
  apply (rule fails_deadlines_loop [OF assms(6,7,8)])
  apply assumption
  done

lemma fails_enrich_conf_date:
  assumes "a < length h0" and "h0 ! a = ODict d"
    and "map_of d ''conference_date'' = Some (VStr str)"
    and "str \<noteq> []" and "strptime_ymd str = Inl err"
  shows "fails h0 e (enrich_conf_h clk (VRef e) (VRef a))"
  unfolding enrich_conf_h_def
  apply (rule fails_seq2 [OF keeps_copy])
  apply (rule fails_seq2 [OF keeps_alloc])
  apply (rule fails_seq2 [OF keeps_alloc])
  apply (rule fails_seq2 [OF keeps_get])
  apply (rule fails_seq2 [OF keeps_items])
  apply (rule fails_seq2 [OF keeps_deadlines_loop], assumption)
  apply (rule fails_seq2 [OF keeps_sort [OF _ keeps_days_key]], assumption)
  apply (rule fails_seq2 [OF keeps_setitem], assumption)
  apply (rule fails_seq2 [OF keeps_truth])
  apply (rule fails_seq2 [OF keeps_first])
  apply (rule fails_seq2 [OF keeps_setitem], assumption)
  apply (rule fails_seq2 [OF keeps_get_old [OF assms(1,2)]])
  apply (simp only: assms(3) option.case)
  apply (rule fails_seq1)
  apply (rule fails_days_until_bad [OF assms(4,5)])
  done

lemma fails_enrich_conf:
  assumes "bad_record h0 conf"
  shows "fails h0 e (enrich_conf_h clk (VRef e) conf)"
  using assms unfolding bad_record_def
  by (auto intro: fails_enrich_conf_deadline fails_enrich_conf_date)

lemma fails_enrich_loop:
  assumes "\<exists>conf\<in>set confs. bad_record h0 conf"
  shows "fails h0 e (enrich_loop_h clk (VRef e) confs)"
  using assms
proof (induction confs)
  case Nil
  then show ?case by simp
next
  case (Cons conf confs)
  show ?case
  proof (cases "bad_record h0 conf")
    case True
    then show ?thesis
      unfolding enrich_loop_h.simps by (intro fails_seq1 fails_enrich_conf)
  next
    case False
    with Cons.prems have "\<exists>conf\<in>set confs. bad_record h0 conf" by simp
    from Cons.IH [OF this] show ?thesis
      unfolding enrich_loop_h.simps by (intro fails_seq2 [OF keeps_enrich_conf])
  qed
qed

section \<open>Days remaining\<close>

text \<open>
  Claim C3, as the code has it. With the current moment fixed at \<open>t\<close>, for a date string
  that \<^verbatim>\<open>strptime\<close> accepts and whose midnight lies strictly after \<open>t\<close>,
  \<^verbatim>\<open>days_until\<close> returns the whole days from \<open>t\<close> to that midnight, rounded down.
  The value is never negative; it is positive exactly when the deadline is at least 24
  hours away, and zero for a deadline less than 24 hours away.
\<close>

theorem days_until_future_floor:
  assumes "strptime_ymd s = Inr deadline" and "total_us t < total_us deadline"
  shows "days_until (fixed_clock t) n (Some s)
           = (Inr (Some ((total_us deadline - total_us t) div us_per_day)), Suc n)
         \<and> 0 \<le> (total_us deadline - total_us t) div us_per_day
         \<and> (0 < (total_us deadline - total_us t) div us_per_day
              \<longleftrightarrow> us_per_day \<le> total_us deadline - total_us t)"
proof -
  have ne: "s \<noteq> []" using assms(1) by (rule strptime_nonempty)
  have pos: "0 < us_per_day" by (simp add: us_per_day_def)
  have 1: "days_until (fixed_clock t) n (Some s)
           = (Inr (Some ((total_us deadline - total_us t) div us_per_day)), Suc n)"
    using days_until_good [OF ne assms(1), of "fixed_clock t" n]
    by (simp add: td_days_floor fixed_clock_def)
  have 2: "0 \<le> (total_us deadline - total_us t) div us_per_day"
    using assms(2) pos by (simp add: pos_imp_zdiv_nonneg_iff)
  have 3: "0 < (total_us deadline - total_us t) div us_per_day
              \<longleftrightarrow> us_per_day \<le> total_us deadline - total_us t"
    using pos by (simp add: pos_imp_zdiv_pos_iff)
  from 1 2 3 show ?thesis by blast
qed

text \<open>The theorem at the date 2024-01-03, seen from noon of 2024-01-01: one day.\<close>

theorem days_until_future_floor_witness:
  "strptime_ymd ''2024-01-03'' = Inr \<lparr>dt_ordinal = 738888, dt_second = 0, dt_microsecond = 0\<rparr>
   \<and> total_us noon_2024_01_01 < total_us \<lparr>dt_ordinal = 738888, dt_second = 0, dt_microsecond = 0\<rparr>
   \<and> days_until (fixed_clock noon_2024_01_01) 0 (Some ''2024-01-03'') = (Inr (Some 1), Suc 0)"
proof -
  have h1: "strptime_ymd ''2024-01-03'' = Inr \<lparr>dt_ordinal = 738888, dt_second = 0, dt_microsecond = 0\<rparr>"
    by code_simp
  have h2: "total_us noon_2024_01_01 < total_us \<lparr>dt_ordinal = 738888, dt_second = 0, dt_microsecond = 0\<rparr>"
    by (simp add: total_us_def noon_2024_01_01_def)
  show ?thesis
    using days_until_future_floor [OF h1 h2, of 0] h1 h2
    by (simp add: total_us_def noon_2024_01_01_def us_per_day_def)
qed

text \<open>
  Claim C3 as stated fails: the date 2024-01-02 is strictly in the future at noon of
  2024-01-01, and its days remaining are 0, which is not positive.
\<close>

theorem days_until_future_zero:
  "strptime_ymd ''2024-01-02'' = Inr \<lparr>dt_ordinal = 738887, dt_second = 0, dt_microsecond = 0\<rparr>
   \<and> total_us noon_2024_01_01 < total_us \<lparr>dt_ordinal = 738887, dt_second = 0, dt_microsecond = 0\<rparr>
   \<and> days_until (fixed_clock noon_2024_01_01) 0 (Some ''2024-01-02'') = (Inr (Some 0), Suc 0)"
  by code_simp

section \<open>The deadlines of every record\<close>

text \<open>
  Claim C4. With the current moment fixed at \<open>t\<close>, the enriched output has one record for
  each record of the input: as many records as the input, and, the derived keys taken
  away, the records of the input, each as often as it is there. Every record \<open>ec\<close> of the
  output is a record of the input with the derived keys added, and
  \<^item> the (type, date) pairs of its \<^verbatim>\<open>all_deadlines\<close> are, as a multiset, the items of its
    \<^verbatim>\<open>deadlines\<close> whose date is present (not \<^verbatim>\<open>None\<close> and not empty): one entry for
    each dated deadline and none for the others;
  \<^item> every entry holds the days remaining at \<open>t\<close>;
  \<^item> \<^verbatim>\<open>all_deadlines\<close> is in ascending order of days;
  \<^item> \<^verbatim>\<open>next_deadline\<close> is the first entry of \<^verbatim>\<open>all_deadlines\<close>, whose days are the
    smallest (signed) of all entries, or \<^verbatim>\<open>None\<close> for the empty list;
  \<^item> \<^verbatim>\<open>next_deadline\<close> is \<^verbatim>\<open>None\<close> exactly when no deadline of the record has a date.
\<close>

theorem all_deadlines_next_deadline:
  assumes "enrich_conference_data (fixed_clock t) n conferences = (Inr out, n')"
  shows "length out = length conferences
       \<and> mset (map conference.truncate out) = mset conferences
       \<and> (\<forall>ec\<in>set out.
            conference.truncate ec \<in> set conferences
          \<and> mset (map (\<lambda>e. (d_type e, d_date e)) (all_deadlines ec))
              = mset (filter (\<lambda>it. truthy (snd it)) (items_of ec))
          \<and> (\<forall>e\<in>set (all_deadlines ec). days_ok t e)
          \<and> sorted (map d_days (all_deadlines ec))
          \<and> next_deadline ec = (case all_deadlines ec of [] \<Rightarrow> None | x # _ \<Rightarrow> Some x)
          \<and> (\<forall>nd. next_deadline ec = Some nd \<longrightarrow>
                nd \<in> set (all_deadlines ec)
                \<and> (\<forall>e\<in>set (all_deadlines ec). d_days nd \<le> d_days e))
          \<and> (next_deadline ec = None \<longleftrightarrow> (\<forall>it\<in>set (items_of ec). \<not> truthy (snd it))))"
proof -
  have len: "length out = length conferences" using assms by (rule enriched_all(1))
  have perm: "mset (map conference.truncate out) = mset conferences"
    using assms by (rule enriched_all(2))
  have each: "\<forall>ec\<in>set out.
            conference.truncate ec \<in> set conferences
          \<and> mset (map (\<lambda>e. (d_type e, d_date e)) (all_deadlines ec))
              = mset (filter (\<lambda>it. truthy (snd it)) (items_of ec))
          \<and> (\<forall>e\<in>set (all_deadlines ec). days_ok t e)
          \<and> sorted (map d_days (all_deadlines ec))
          \<and> next_deadline ec = (case all_deadlines ec of [] \<Rightarrow> None | x # _ \<Rightarrow> Some x)
          \<and> (\<forall>nd. next_deadline ec = Some nd \<longrightarrow>
                nd \<in> set (all_deadlines ec)
                \<and> (\<forall>e\<in>set (all_deadlines ec). d_days nd \<le> d_days e))
          \<and> (next_deadline ec = None \<longleftrightarrow> (\<forall>it\<in>set (items_of ec). \<not> truthy (snd it)))"
  proof (rule ballI)
    fix ec assume ec: "ec \<in> set out"
    with assms obtain conf where conf: "conf \<in> set conferences" "enriches (fixed_clock t) conf ec"
      by (rule enriched_member)
    note p = enriches_props [OF conf(2)]
    have 1: "conference.truncate ec \<in> set conferences" using p(5) conf(1) by simp
    have min: "\<forall>nd. next_deadline ec = Some nd \<longrightarrow>
               nd \<in> set (all_deadlines ec) \<and> (\<forall>e\<in>set (all_deadlines ec). d_days nd \<le> d_days e)"
      using next_min [OF p(3)] p(4) by simp
    have none: "next_deadline ec = None \<longleftrightarrow> (\<forall>it\<in>set (items_of ec). \<not> truthy (snd it))"
      using none_iff [OF p(1)] p(4) by simp
    show "conference.truncate ec \<in> set conferences
          \<and> mset (map (\<lambda>e. (d_type e, d_date e)) (all_deadlines ec))
              = mset (filter (\<lambda>it. truthy (snd it)) (items_of ec))
          \<and> (\<forall>e\<in>set (all_deadlines ec). days_ok t e)
          \<and> sorted (map d_days (all_deadlines ec))
          \<and> next_deadline ec = (case all_deadlines ec of [] \<Rightarrow> None | x # _ \<Rightarrow> Some x)
          \<and> (\<forall>nd. next_deadline ec = Some nd \<longrightarrow>
                nd \<in> set (all_deadlines ec)
                \<and> (\<forall>e\<in>set (all_deadlines ec). d_days nd \<le> d_days e))
          \<and> (next_deadline ec = None \<longleftrightarrow> (\<forall>it\<in>set (items_of ec). \<not> truthy (snd it)))"
      apply (intro conjI)
            apply (rule 1)
           apply (rule p(1))
          apply (rule p(2))
         apply (rule p(3))
        apply (rule p(4))
       apply (rule min)
      apply (rule none)
      done
  qed
  from len perm each show ?thesis by (intro conjI)
qed

text \<open>
  The theorem at an input of two records, seen from noon of 2026-11-04: A, with one
  future deadline, and a record with a past and a future deadline, a deadline without a
  date and one with an empty date. Both are in the output, the second first.
\<close>

theorem all_deadlines_next_deadline_witness:
  "enrich_conference_data (fixed_clock now_2026) 0 [conf_A, conf_two]
     = (Inr [enriched_two, enriched_A], 5)
   \<and> length [enriched_two, enriched_A] = length [conf_A, conf_two]
   \<and> mset (map conference.truncate [enriched_two, enriched_A]) = mset [conf_A, conf_two]
   \<and> sorted (map d_days (all_deadlines enriched_two))
   \<and> days_ok now_2026 entry_abstract \<and> days_ok now_2026 entry_paper
   \<and> next_deadline enriched_A = Some entry_paper"
proof -
  have h1: "enrich_conference_data (fixed_clock now_2026) 0 [conf_A, conf_two]
     = (Inr [enriched_two, enriched_A], 5)"
    by (rule enrich_A_two)
  have h3: "all_deadlines enriched_two = [entry_abstract, entry_paper]"
    by (simp add: enriched_two_def)
  have h4: "all_deadlines enriched_A = [entry_paper]"
    by (simp add: enriched_A_def)
  note t = all_deadlines_next_deadline [OF h1]
  from t have a: "length [enriched_two, enriched_A] = length [conf_A, conf_two]"
    and b: "mset (map conference.truncate [enriched_two, enriched_A]) = mset [conf_A, conf_two]"
    by blast+
  from t have c: "\<forall>ec\<in>set [enriched_two, enriched_A].
      sorted (map d_days (all_deadlines ec))
      \<and> (\<forall>e\<in>set (all_deadlines ec). days_ok now_2026 e)
      \<and> next_deadline ec = (case all_deadlines ec of [] \<Rightarrow> None | x # _ \<Rightarrow> Some x)"
    by blast
  from c have c1: "sorted (map d_days (all_deadlines enriched_two))"
    and c2: "\<forall>e\<in>set (all_deadlines enriched_two). days_ok now_2026 e"
    and c3: "next_deadline enriched_A
               = (case all_deadlines enriched_A of [] \<Rightarrow> None | x # _ \<Rightarrow> Some x)"
    by simp_all
  from c2 have d: "days_ok now_2026 entry_abstract" "days_ok now_2026 entry_paper"
    by (simp_all add: h3)
  from c3 have e: "next_deadline enriched_A = Some entry_paper" by (simp add: h4)
  from h1 a b c1 d e show ?thesis by blast
qed

section \<open>The order of the records\<close>

text \<open>
  Claim C5. Whatever the clock reads: of two records of the output whose nearest deadlines
  have both passed (negative days), the one with the smaller magnitude of days comes
  before the one with the larger magnitude.
\<close>

theorem passed_tier_monotone:
  assumes "enrich_conference_data clk n conferences = (Inr out, n')"
    and "i < length out" and "j < length out"
    and "next_deadline (out ! i) = Some a" and "next_deadline (out ! j) = Some b"
    and "d_days a < 0" and "d_days b < 0"
    and "abs (d_days a) < abs (d_days b)"
  shows "i < j"
proof (rule ccontr)
  assume "\<not> i < j"
  then have "j \<le> i" by simp
  have "sorted (map sort_key_conf out)" using assms(1) by (rule sorted_out)
  with \<open>j \<le> i\<close> assms(2) have "sort_key_conf (out ! j) \<le> sort_key_conf (out ! i)"
    by (simp add: sorted_iff_nth_mono)
  with assms(4-8) show False by (simp add: sort_key_conf_def)
qed

text \<open>
  The theorem at the input [O, B] seen from noon of 2026-11-04: the deadline of B passed
  9805 days ago and that of O 10170 days ago, and B comes first.
\<close>

theorem passed_tier_monotone_witness:
  "enrich_conference_data (fixed_clock now_2026) 0 [conf_old, conf_B]
     = (Inr [enriched_B, enriched_old], 3)
   \<and> next_deadline ([enriched_B, enriched_old] ! 0)
       = Some \<lparr>d_type = ''paper'', d_date = Some ''2000-01-01'', d_days = - 9805\<rparr>
   \<and> next_deadline ([enriched_B, enriched_old] ! 1)
       = Some \<lparr>d_type = ''paper'', d_date = Some ''1999-01-01'', d_days = - 10170\<rparr>
   \<and> (0::nat) < 1"
proof -
  have h1: "enrich_conference_data (fixed_clock now_2026) 0 [conf_old, conf_B]
     = (Inr [enriched_B, enriched_old], 3)"
    by code_simp
  have h2: "next_deadline ([enriched_B, enriched_old] ! 0)
       = Some \<lparr>d_type = ''paper'', d_date = Some ''2000-01-01'', d_days = - 9805\<rparr>"
    by (simp add: enriched_B_def)
  have h3: "next_deadline ([enriched_B, enriched_old] ! 1)
       = Some \<lparr>d_type = ''paper'', d_date = Some ''1999-01-01'', d_days = - 10170\<rparr>"
    by (simp add: enriched_old_def)
  have "(0::nat) < 1"
    using passed_tier_monotone [OF h1 _ _ h2 h3] by simp
  with h1 h2 h3 show ?thesis by blast
qed

text \<open>
  Claim C1, at the scenario of the specification. Seen from noon of 2026-11-04, the
  deadline of A is 26355 days ahead and sorts by the key 26355; the deadline of B passed
  9805 days ago and sorts by the key 10000 + 9805 = 19805. The enriched order is
  [B, A, C]: the record with the passed deadline comes before the one with the upcoming
  deadline, against the comment above \<^verbatim>\<open>sort_key\<close> (upcoming first, passed to the bottom).
\<close>

theorem scenario_order:
  "enrich_conference_data (fixed_clock now_2026) 0 [conf_A, conf_B, conf_C]
     = (Inr [enriched_B, enriched_A, enriched_C], 3)"
  by code_simp

text \<open>
  What the key does achieve, whatever the clock reads: a record whose nearest deadline is
  upcoming and at most 10000 days ahead comes before every record whose nearest deadline
  has passed, and a record with a dated deadline comes before every record without one.
\<close>

lemma upcoming_before_passed_within_offset:
  assumes "enrich_conference_data clk n conferences = (Inr out, n')"
    and "i < length out" and "j < length out"
    and "next_deadline (out ! i) = Some a" and "next_deadline (out ! j) = Some b"
    and "0 \<le> d_days a" and "d_days a \<le> 10000" and "d_days b < 0"
  shows "i < j"
proof (rule ccontr)
  assume "\<not> i < j"
  then have "j \<le> i" by simp
  have "sorted (map sort_key_conf out)" using assms(1) by (rule sorted_out)
  with \<open>j \<le> i\<close> assms(2) have "sort_key_conf (out ! j) \<le> sort_key_conf (out ! i)"
    by (simp add: sorted_iff_nth_mono)
  with assms(4-8) show False by (simp add: sort_key_conf_def)
qed

lemma undated_after_dated:
  assumes "enrich_conference_data clk n conferences = (Inr out, n')"
    and "i < length out" and "j < length out"
    and "next_deadline (out ! i) = Some a" and "next_deadline (out ! j) = None"
  shows "i < j"
proof (rule ccontr)
  assume "\<not> i < j"
  then have "j \<le> i" by simp
  have "sorted (map sort_key_conf out)" using assms(1) by (rule sorted_out)
  with \<open>j \<le> i\<close> assms(2) have "sort_key_conf (out ! j) \<le> sort_key_conf (out ! i)"
    by (simp add: sorted_iff_nth_mono)
  with assms(4,5) show False by (simp add: sort_key_conf_def Let_def split: if_splits)
qed

text \<open>
  Claim C2, at a record with exactly two dated deadlines: the abstract deadline passed
  9805 days ago and the paper deadline is 26355 days ahead. \<^verbatim>\<open>next_deadline\<close> is the
  passed one, the entry with the smallest signed days, against the comment at line 71
  (find the earliest upcoming deadline).
\<close>

theorem next_deadline_of_past_and_future:
  "enrich_conference_data (fixed_clock now_2026) 0 [conf_past_future]
     = (Inr [enriched_past_future], 3)
   \<and> all_deadlines enriched_past_future = [entry_abstract, entry_paper]
   \<and> d_days entry_abstract < 0 \<and> 0 < d_days entry_paper
   \<and> next_deadline enriched_past_future = Some entry_abstract"
  by code_simp

text \<open>
  The same for every input, with the current moment fixed: a record with a passed dated
  deadline has a passed \<^verbatim>\<open>next_deadline\<close>, whatever its other deadlines are.
\<close>

lemma next_deadline_is_past_when_any_is:
  assumes "enrich_conference_data (fixed_clock t) n conferences = (Inr out, n')"
    and "ec \<in> set out" and "e \<in> set (all_deadlines ec)" and "d_days e < 0"
  shows "\<exists>nd. next_deadline ec = Some nd \<and> d_days nd < 0"
proof -
  from assms(1,2) obtain conf where "enriches (fixed_clock t) conf ec"
    by (rule enriched_member)
  note p = enriches_props [OF this]
  from assms(3) obtain x rest where ad: "all_deadlines ec = x # rest"
    by (cases "all_deadlines ec") auto
  with p(4) have nd: "next_deadline ec = Some x" by simp
  from next_min [OF p(3)] p(4) nd assms(3) have "d_days x \<le> d_days e" by simp
  with assms(4) nd show ?thesis by simp
qed

section \<open>Malformed dates\<close>

text \<open>
  Claim C7, as the code has it, for inputs whose records have the shape of the data
  model, which is the type \<open>conference\<close>: the key \<^verbatim>\<open>deadlines\<close> is missing or holds a
  mapping from a label to a date string or null, and the conference date is missing, null
  or a string. Whatever the clock reads, enrichment of such an input raises
  \<^verbatim>\<open>ValueError\<close>, and returns no list, when \<^verbatim>\<open>parse_date\<close> raises on one of its date
  values (a deadline date or a conference date that is present and that \<^verbatim>\<open>strptime\<close>
  rejects); otherwise it raises nothing and returns a list with one enriched record for
  each record of the input.
\<close>

theorem enrich_raises_iff_unparsable:
  "(if \<exists>conf\<in>set conferences. \<exists>ds\<in>set (date_values conf). parse_date ds = Inl ValueError
    then fst (enrich_conference_data clk n conferences) = Inl ValueError
    else \<exists>out. fst (enrich_conference_data clk n conferences) = Inr out
               \<and> length out = length conferences)"
proof (cases "\<exists>conf\<in>set conferences. \<exists>ds\<in>set (date_values conf). parse_date ds = Inl ValueError")
  case True
  from enrich_loop_bad [OF this, of clk "Suc n" "[]"] obtain n' where
    "enrich_loop clk (Suc n) conferences [] = (Inl ValueError, n')" by blast
  then have "fst (enrich_conference_data clk n conferences) = Inl ValueError"
    by (simp add: enrich_conference_data_def datetime_now_def)
  with True show ?thesis by simp
next
  case False
  then have "\<forall>conf\<in>set conferences. \<forall>ds\<in>set (date_values conf). parse_date ds \<noteq> Inl ValueError"
    by simp
  from enrich_loop_ok [OF this, of clk "Suc n" "[]"] obtain r n' where
    "enrich_loop clk (Suc n) conferences [] = (Inr r, n')" "length r = length conferences"
    by auto
  then have "\<exists>out. fst (enrich_conference_data clk n conferences) = Inr out
               \<and> length out = length conferences"
    by (simp add: enrich_conference_data_def datetime_now_def)
  with False show ?thesis by simp
qed

text \<open>The theorem at an input whose second record has the deadline 2027-02-30.\<close>

theorem enrich_raises_iff_unparsable_witness:
  "parse_date (Some ''2027-02-30'') = Inl ValueError
   \<and> Some ''2027-02-30'' \<in> set (date_values conf_bad)
   \<and> fst (enrich_conference_data (fixed_clock now_2026) 0 [conf_A, conf_bad]) = Inl ValueError"
proof -
  have h1: "parse_date (Some ''2027-02-30'') = Inl ValueError" by code_simp
  have h2: "Some ''2027-02-30'' \<in> set (date_values conf_bad)"
    by (simp add: date_values_def conf_bad_def items_of_def)
  have h3: "\<exists>conf\<in>set [conf_A, conf_bad]. \<exists>ds\<in>set (date_values conf). parse_date ds = Inl ValueError"
  proof (intro bexI)
    show "parse_date (Some ''2027-02-30'') = Inl ValueError" by (rule h1)
    show "Some ''2027-02-30'' \<in> set (date_values conf_bad)" by (rule h2)
    show "conf_bad \<in> set [conf_A, conf_bad]" by simp
  qed
  have "fst (enrich_conference_data (fixed_clock now_2026) 0 [conf_A, conf_bad]) = Inl ValueError"
    using enrich_raises_iff_unparsable [of "[conf_A, conf_bad]" "fixed_clock now_2026" 0]
    by (simp only: h3 if_True)
  with h1 h2 show ?thesis by blast
qed

text \<open>
  Claim C7 as stated fails: the date 2027-1-5 is present and is not in the form
  YYYY-MM-DD, and enrichment returns a result, with 61 days remaining at noon of
  2026-11-04. \<^verbatim>\<open>strptime\<close> takes a month and a day without the leading zero.
\<close>

theorem unpadded_date_accepted:
  "truthy (Some ''2027-1-5'') \<and> \<not> yyyy_mm_dd_form ''2027-1-5''
   \<and> enrich_conference_data (fixed_clock now_2026) 0 [conf_short] = (Inr [enriched_short], 2)"
  by code_simp

text \<open>
  The strings in the form YYYY-MM-DD are parsed as expected: \<^verbatim>\<open>strptime\<close> gives what
  the constructor gives for the year, month and day written, a datetime for a day of the
  calendar and \<^verbatim>\<open>ValueError\<close> for any other.
\<close>

lemma digit_val_inj: "digit_val a = digit_val b \<longleftrightarrow> a = b"
  by (auto simp: digit_val_def)

lemma char_is_digit_val:
  "a = CHR ''0'' \<longleftrightarrow> digit_val a = 0"
  "a = CHR ''1'' \<longleftrightarrow> digit_val a = 1"
  "a = CHR ''2'' \<longleftrightarrow> digit_val a = 2"
  "a = CHR ''3'' \<longleftrightarrow> digit_val a = 3"
  "a = CHR '' '' \<longleftrightarrow> digit_val a = - 16"
  "a = CHR ''-'' \<longleftrightarrow> digit_val a = - 3"
  using digit_val_inj [of a "CHR ''0''"] digit_val_inj [of a "CHR ''1''"]
    digit_val_inj [of a "CHR ''2''"] digit_val_inj [of a "CHR ''3''"]
    digit_val_inj [of a "CHR '' ''"] digit_val_inj [of a "CHR ''-''"]
  by (simp_all add: digit_val_def)

lemma is_digit_val: "is_digit a \<longleftrightarrow> 0 \<le> digit_val a \<and> digit_val a \<le> 9"
  by (auto simp: is_digit_def digit_val_def)

lemma is_digit19_val: "is_digit19 a \<longleftrightarrow> 1 \<le> digit_val a \<and> digit_val a \<le> 9"
  by (auto simp: is_digit19_def digit_val_def)

lemma month_step:
  assumes "is_digit a" and "is_digit b"
  shows "(case match_m (a # b # CHR ''-'' # rest) of
            None \<Rightarrow> Inl ValueError
          | Some (month, r3) \<Rightarrow>
              (case match_lit (CHR ''-'') r3 of
                 None \<Rightarrow> Inl ValueError
               | Some r4 \<Rightarrow> F month r4))
         = (if 1 \<le> 10 * digit_val a + digit_val b \<and> 10 * digit_val a + digit_val b \<le> 12
            then F (10 * digit_val a + digit_val b) rest else Inl ValueError)"
  using assms
  by (auto simp: is_digit_val is_digit19_val char_is_digit_val)

lemma day_step:
  assumes "is_digit a" and "is_digit b"
  shows "(case match_d [a, b] of
            None \<Rightarrow> Inl ValueError
          | Some (day, r5) \<Rightarrow> if r5 \<noteq> [] then Inl ValueError else G day)
         = (if 1 \<le> 10 * digit_val a + digit_val b \<and> 10 * digit_val a + digit_val b \<le> 31
            then G (10 * digit_val a + digit_val b) else Inl ValueError)"
  using assms
  by (auto simp: is_digit_val is_digit19_val char_is_digit_val)

lemma days_in_month_le: "1 \<le> m \<Longrightarrow> m \<le> 12 \<Longrightarrow> days_in_month y m \<le> 31"
proof -
  assume "1 \<le> m" "m \<le> 12"
  then have "m \<in> {1, 2, 3, 4, 5, 6, 7, 8, 9, 10, 11, 12}" by simp presburger
  then show ?thesis by (auto simp: days_in_month_def DAYS_IN_MONTH_def)
qed

lemma strict_form_parse:
  assumes "yyyy_mm_dd_form s"
  shows "strptime_ymd s =
           datetime_ymd
             (1000 * digit_val (s ! 0) + 100 * digit_val (s ! 1) + 10 * digit_val (s ! 2)
                + digit_val (s ! 3))
             (10 * digit_val (s ! 5) + digit_val (s ! 6))
             (10 * digit_val (s ! 8) + digit_val (s ! 9))"
proof -
  from assms have len: "length s = 10" by (simp add: yyyy_mm_dd_form_def)
  then obtain c0 c1 c2 c3 c4 c5 c6 c7 c8 c9 where
    s: "s = [c0, c1, c2, c3, c4, c5, c6, c7, c8, c9]"
    by (auto simp: length_Suc_conv eval_nat_numeral)
  from assms have d: "is_digit c0" "is_digit c1" "is_digit c2" "is_digit c3"
    "is_digit c5" "is_digit c6" "is_digit c8" "is_digit c9" "c4 = CHR ''-''" "c7 = CHR ''-''"
    by (simp_all add: yyyy_mm_dd_form_def s)
  let ?Y = "1000 * digit_val c0 + 100 * digit_val c1 + 10 * digit_val c2 + digit_val c3"
  let ?M = "10 * digit_val c5 + digit_val c6"
  let ?D = "10 * digit_val c8 + digit_val c9"
  have "strptime_ymd s =
          (if 1 \<le> ?M \<and> ?M \<le> 12
           then (if 1 \<le> ?D \<and> ?D \<le> 31 then datetime_ymd ?Y ?M ?D else Inl ValueError)
           else Inl ValueError)"
    unfolding strptime_ymd_def s
    by (simp add: d month_step [OF d(5) d(6)] day_step [OF d(7) d(8)] del: match_m.simps match_d.simps)
  also have "\<dots> = datetime_ymd ?Y ?M ?D"
    using days_in_month_le [of ?M ?Y] by (auto simp: datetime_ymd_def)
  finally show ?thesis by (simp add: s)
qed

text \<open>
  Outside the shape of the data model the code raises other exceptions, as the
  translation on objects shows: \<^verbatim>\<open>AttributeError\<close> at line 73 for a record whose
  \<^verbatim>\<open>deadlines\<close> is null, before the malformed date of the next record is looked at, and
  \<^verbatim>\<open>TypeError\<close> at line 50 for a date that is a number.
\<close>

lemma null_deadlines_raise:
  "fst (enrich_conference_data_h (fixed_clock now_2026) (VRef 0)
          \<lparr>heap = heap_null_deadlines, ticks = 0\<rparr>) = Inl (Py AttributeError)"
  by code_simp

lemma number_date_raises:
  "fst (enrich_conference_data_h (fixed_clock now_2026) (VRef 0)
          \<lparr>heap = heap_number_date, ticks = 0\<rparr>) = Inl (Py TypeError)"
  by code_simp

text \<open>
  What holds for records of every shape: when a record of the input list has a date that
  is present and that \<^verbatim>\<open>strptime\<close> rejects, enrichment raises, this
  \<^verbatim>\<open>ValueError\<close> or an exception that comes before it, and returns no list.
\<close>

lemma malformed_date_raises_on_heap:
  assumes "a0 < length (heap s)" and "heap s ! a0 = OList confs"
    and "\<exists>conf\<in>set confs. bad_record (heap s) conf"
  shows "\<exists>err s'. enrich_conference_data_h clk (VRef a0) s = (Inl err, s')"
proof -
  let ?e = "length (heap s)"
  let ?s0 = "s\<lparr>heap := heap s @ [OList []]\<rparr>"
  let ?rest = "seq (now_h clk) (\<lambda>today.
      seq (iter_h (VRef a0)) (\<lambda>confs.
      seq (enrich_loop_h clk (VRef ?e) confs) (\<lambda>_.
      seq (sort_h (VRef ?e) sort_key_h) (\<lambda>_.
      ret (VRef ?e)))))"
  have i0: "heap_inv (heap s) ?e ?s0" by (simp add: heap_inv_def)
  have run: "enrich_conference_data_h clk (VRef a0) s = ?rest ?s0"
    by (simp add: enrich_conference_data_h_def seq_def [of "alloc (OList [])"] alloc_def)
  have f: "fails (heap s) ?e ?rest"
    apply (rule fails_seq2 [OF keeps_now])
    apply (rule fails_seq2 [OF keeps_iter_old [OF assms(1,2)]])
    apply (rule fails_seq1)
    apply (simp only:)
    apply (rule fails_enrich_loop [OF assms(3)])
    done
  obtain r s' where rs: "?rest ?s0 = (r, s')" by (cases "?rest ?s0")
  from failsD [OF f i0 rs] obtain err where "r = Inl err" by blast
  with run rs show ?thesis by simp
qed

section \<open>The loader\<close>

text \<open>
  Claim C6. The loader raises when the file is missing (\<^verbatim>\<open>OSError\<close>) and when the
  parser raises (the parser's exception); when the parsed document is a mapping it returns
  the value under the key \<^verbatim>\<open>conferences\<close> if the key is there, and the empty list if
  it is not. The check of the path never fails.
\<close>

theorem load_conferences_result:
  "(fs (app_dir @ [''data'', ''conferences.yaml'']) = None
      \<longrightarrow> load_conferences app_dir fs safe_load = Inl OSError)
   \<and> (\<forall>f e. fs (app_dir @ [''data'', ''conferences.yaml'']) = Some f \<and> safe_load f = Inl e
      \<longrightarrow> load_conferences app_dir fs safe_load = Inl e)
   \<and> (\<forall>f m v. fs (app_dir @ [''data'', ''conferences.yaml'']) = Some f
        \<and> safe_load f = Inr (DocMapping m) \<and> map_of m ''conferences'' = Some v
      \<longrightarrow> load_conferences app_dir fs safe_load = Inr v)
   \<and> (\<forall>f m. fs (app_dir @ [''data'', ''conferences.yaml'']) = Some f
        \<and> safe_load f = Inr (DocMapping m) \<and> map_of m ''conferences'' = None
      \<longrightarrow> load_conferences app_dir fs safe_load = Inr [])"
  by (simp add: load_conferences_def config_path_relative)

text \<open>The theorem at a missing file, a malformed file, a file with the key and one without.\<close>

theorem load_conferences_result_witness:
  "load_conferences [''srv'', ''app''] no_files demo_loader = Inl OSError
   \<and> load_conferences [''srv'', ''app''] (one_file demo_path ''['') demo_loader = Inl YAMLError
   \<and> load_conferences [''srv'', ''app'']
        (one_file demo_path ''conferences: [{name: C, deadlines: {}}]'') demo_loader = Inr [conf_C]
   \<and> load_conferences [''srv'', ''app''] (one_file demo_path ''other: []'') demo_loader = Inr []"
  using load_conferences_result [of no_files "[''srv'', ''app'']" demo_loader]
    load_conferences_result [of "one_file demo_path ''[''" "[''srv'', ''app'']" demo_loader]
    load_conferences_result [of "one_file demo_path ''conferences: [{name: C, deadlines: {}}]''"
       "[''srv'', ''app'']" demo_loader]
    load_conferences_result [of "one_file demo_path ''other: []''" "[''srv'', ''app'']" demo_loader]
  by (simp add: no_files_def one_file_def demo_path_def demo_loader_def)

text \<open>
  Claim C10. When the file parses to the empty document (null), the loader raises
  \<^verbatim>\<open>AttributeError\<close>. Whenever the loader returns a list, the parsed document is a
  mapping, and the list is the value under \<^verbatim>\<open>conferences\<close> or, the key missing, the
  empty list.
\<close>

theorem load_conferences_null:
  "(\<forall>f. fs (app_dir @ [''data'', ''conferences.yaml'']) = Some f \<and> safe_load f = Inr DocNull
      \<longrightarrow> load_conferences app_dir fs safe_load = Inl AttributeError)
   \<and> (\<forall>cs. load_conferences app_dir fs safe_load = Inr cs
      \<longrightarrow> (\<exists>f m. fs (app_dir @ [''data'', ''conferences.yaml'']) = Some f
             \<and> safe_load f = Inr (DocMapping m)
             \<and> cs = (case map_of m ''conferences'' of None \<Rightarrow> [] | Some v \<Rightarrow> v)))"
  by (auto simp: load_conferences_def config_path_relative
           split: option.splits sum.splits document.splits)

text \<open>The theorem at an empty file.\<close>

theorem load_conferences_null_witness:
  "one_file demo_path [] ([''srv'', ''app''] @ [''data'', ''conferences.yaml'']) = Some []
   \<and> demo_loader [] = Inr DocNull
   \<and> load_conferences [''srv'', ''app''] (one_file demo_path []) demo_loader = Inl AttributeError"
  using load_conferences_null [of "one_file demo_path []" "[''srv'', ''app'']" demo_loader]
  by (simp add: one_file_def demo_path_def demo_loader_def)

section \<open>Determinism\<close>

text \<open>
  Claim C8. With the current moment fixed at \<open>t\<close>, the result of loading and enriching
  does not depend on how many times the clock has been read before: running the handler
  again, on the same file system, gives the same result, be it a list or an exception.
\<close>

theorem load_then_enrich_deterministic:
  "fst (get_conferences app_dir fs safe_load (fixed_clock t) n)
     = fst (get_conferences app_dir fs safe_load (fixed_clock t) m)"
  by (simp add: get_conferences_def enrich_conference_data_fixed_fst [where t = t and n = n and m = m]
           split: sum.splits)

section \<open>The input is not mutated\<close>

text \<open>
  Claim C9. When \<^verbatim>\<open>enrich_conference_data\<close> ends, by returning or by raising, whatever
  the clock reads and whatever it was given: every object that was on the heap at entry
  (the input list, its records, their \<^verbatim>\<open>deadlines\<close> dictionaries and every other
  object) is what it was. When it returns, the value is a reference to a list allocated
  by the call, and every element of that list is a reference to an object allocated by
  the call after it: the output records are new objects, and the derived keys were
  written to them only.
\<close>

theorem enrich_leaves_input_unchanged:
  assumes "enrich_conference_data_h clk conferences s = (r, s')"
  shows "length (heap s) \<le> length (heap s')
       \<and> (\<forall>a. a < length (heap s) \<longrightarrow> heap s' ! a = heap s ! a)
       \<and> (\<forall>v. r = Inr v \<longrightarrow>
            v = VRef (length (heap s))
            \<and> (\<exists>l. heap s' ! length (heap s) = OList l
                 \<and> (\<forall>x\<in>set l. \<exists>c. x = VRef c \<and> length (heap s) < c)))"
proof -
  let ?e = "length (heap s)"
  let ?s0 = "s\<lparr>heap := heap s @ [OList []]\<rparr>"
  have i0: "heap_inv (heap s) ?e ?s0" by (simp add: heap_inv_def)
  from assms have run:
    "seq (now_h clk) (\<lambda>today.
      seq (iter_h conferences) (\<lambda>confs.
      seq (enrich_loop_h clk (VRef ?e) confs) (\<lambda>_.
      seq (sort_h (VRef ?e) sort_key_h) (\<lambda>_.
      ret (VRef ?e))))) ?s0 = (r, s')"
    by (simp add: enrich_conference_data_h_def seq_def [of "alloc (OList [])"] alloc_def)
  note k = keepsD [OF keeps_after_alloc i0 run]
  from k(1) have p: "prefix (heap s) (heap s')" by (simp add: heap_inv_def)
  then have 1: "length (heap s) \<le> length (heap s')" by (rule prefix_length_le)
  from p have 2: "\<forall>a. a < length (heap s) \<longrightarrow> heap s' ! a = heap s ! a"
    by (auto simp: prefix_def nth_append)
  from k(1) obtain l where l: "heap s' ! ?e = OList l" "\<forall>x\<in>set l. fresh (heap s) ?e x"
    by (auto simp: heap_inv_def)
  from l(2) have "\<forall>x\<in>set l. \<exists>c. x = VRef c \<and> ?e < c" by (fastforce simp: fresh_def)
  with l(1) k(2) 1 2 show ?thesis by blast
qed

text \<open>
  The theorem at the heap with the scenario, seen from noon of 2026-11-04: the six objects
  of the input are unchanged and the result is the new list at address 6, holding the
  copies of B, A and C in this order.
\<close>

theorem enrich_leaves_input_unchanged_witness:
  "enrich_conference_data_h (fixed_clock now_2026) (VRef 0) \<lparr>heap = demo_heap, ticks = 0\<rparr>
     = (Inr (VRef 6), \<lparr>heap = demo_heap @ demo_new, ticks = 3\<rparr>)
   \<and> length demo_heap = 6
   \<and> take 6 (demo_heap @ demo_new) = demo_heap
   \<and> (demo_heap @ demo_new) ! 6 = OList [VRef 11, VRef 7, VRef 15]"
proof -
  have h1: "enrich_conference_data_h (fixed_clock now_2026) (VRef 0) \<lparr>heap = demo_heap, ticks = 0\<rparr>
     = (Inr (VRef 6), \<lparr>heap = demo_heap @ demo_new, ticks = 3\<rparr>)"
    by (rule demo_run)
  have h2: "length demo_heap = 6" by (simp add: demo_heap_def)
  have h3: "take 6 (demo_heap @ demo_new) = demo_heap" using h2 by simp
  have h4: "(demo_heap @ demo_new) ! 6 = OList [VRef 11, VRef 7, VRef 15]"
    using h2 by (simp add: nth_append demo_new_def)
  from enrich_leaves_input_unchanged [OF h1] h1 h2 h3 h4 show ?thesis by blast
qed

end
